theory Spec2Isabelle
  imports Main "HOL-Library.Multiset"
begin

section \<open>Python values: errors and strings\<close>

text \<open>
  The program is the Python 3 script \<^verbatim>\<open>deploy.py\<close>. A Python \<^verbatim>\<open>str\<close> is modelled as a
  \<^typ>\<open>string\<close>, one \<^typ>\<open>char\<close> per code point. Every exception the modelled code can raise is
  a value of \<open>py_error\<close>; a computation that may raise has the type \<open>py_error + 'a\<close>, with
  \<open>Inl\<close> for the exception.

  \<open>ReError\<close> is \<^verbatim>\<open>re.error\<close>, raised when a pattern does not compile. \<open>Unsupported\<close> is not
  a Python exception: it marks a pattern that uses regular-expression syntax outside the
  fragment modelled below, on which this development makes no statement.
\<close>

datatype py_error = TypeError | ValueError | ReError | Unsupported

definition NL :: char where
  "NL = CHR 0x0A"

section \<open>The fragment of Python's \<^verbatim>\<open>re\<close> module used by the script\<close>

subsection \<open>Abstract syntax\<close>

text \<open>
  The script builds two of its three patterns at run time, by substituting the user name and
  the host name into a template with \<^verbatim>\<open>str.format\<close>, and hands the resulting text to
  \<^verbatim>\<open>re.match\<close>. What the script does is therefore decided by how \<^verbatim>\<open>re\<close> reads that text, and
  the model contains a parser and a backtracking matcher for the syntax involved: literals,
  \<^verbatim>\<open>.\<close>, \<^verbatim>\<open>^\<close>, \<^verbatim>\<open>$\<close>, alternation, capturing groups (numbered and \<^verbatim>\<open>(?P<name>...)\<close>), simple
  character sets, and the quantifiers \<^verbatim>\<open>*\<close>, \<^verbatim>\<open>+\<close>, \<^verbatim>\<open>?\<close> with their lazy forms.

  The greedy flag of a quantifier is \<open>True\<close> for the greedy form.
\<close>

datatype regex =
    Lit char
  | AnyChar
  | InSet "char list"
  | NotInSet "char list"
  | Bol
  | Eol
  | Eps
  | Seq regex regex
  | Alt regex regex
  | Grp nat regex
  | Opt bool regex
  | Star bool regex
  | Plus bool regex

fun seq_of :: "regex list \<Rightarrow> regex" where
  "seq_of [] = Eps"
| "seq_of (r # rs) = Seq r (seq_of rs)"

fun alts_of :: "regex list \<Rightarrow> regex" where
  "alts_of [] = Eps"
| "alts_of [r] = r"
| "alts_of (r # rs) = Alt r (alts_of rs)"

record pattern =
  p_regex :: regex
  p_groups :: nat
  p_names :: "(string \<times> nat) list"

subsection \<open>Parsing a pattern\<close>

text \<open>
  The parser reads the pattern one character at a time, as \<^verbatim>\<open>re._parser._parse\<close> does, keeping
  the subpattern under construction (its group number, its finished branches and the items of
  the current branch, all most recent first) and the enclosing subpatterns on a stack.
  Group numbers are given in the order of the opening parentheses. A group name is read as
  a run of ASCII letters and underscores.

  The special characters of \<^verbatim>\<open>re\<close> are \<^verbatim>\<open>. \ [ { ( ) * + ? ^ $ |\<close>; every other character is a
  literal. Backslash escapes, \<^verbatim>\<open>{\<close>, the extensions \<^verbatim>\<open>(?...)\<close> other than \<^verbatim>\<open>(?P<name>\<close>, ranges in
  character sets and possessive quantifiers are outside the fragment: \<open>Unsupported\<close>.
\<close>

datatype pmode =
    Normal
  | AfterOpen
  | ExtQ
  | ExtP
  | GroupName "char list"
  | ClassOpen
  | ClassBody bool "char list"

record pstate =
  cur_grp :: nat
  cur_alts :: "regex list"
  cur_items :: "regex list"
  outer :: "(nat \<times> regex list \<times> regex list) list"
  ngroups :: nat
  gnames :: "(string \<times> nat) list"
  mode :: pmode

definition special_chars :: "char list" where
  "special_chars = CHR 0x5C # ''.[{()*+?^$|''"

definition finish_sub :: "regex list \<Rightarrow> regex list \<Rightarrow> regex" where
  "finish_sub alts items = alts_of (rev (seq_of (rev items) # alts))"

definition push_item :: "pstate \<Rightarrow> regex \<Rightarrow> pstate" where
  "push_item st r = st\<lparr>cur_items := r # cur_items st\<rparr>"

text \<open>
  A quantifier applies to the last item of the current branch. With no item, or an anchor, it
  is the error ``nothing to repeat''. When the last item is itself a greedy quantifier, the
  quantifier character directly follows it: \<^verbatim>\<open>?\<close> makes it lazy, \<^verbatim>\<open>+\<close> would make it possessive
  (unsupported), \<^verbatim>\<open>*\<close> is the error ``multiple repeat'', as is any quantifier after a lazy one.
\<close>

definition mk_repeat :: "char \<Rightarrow> regex \<Rightarrow> regex" where
  "mk_repeat c r =
     (if c = CHR ''?'' then Opt True r else if c = CHR ''*'' then Star True r else Plus True r)"

definition after_repeat :: "char \<Rightarrow> bool \<Rightarrow> regex \<Rightarrow> py_error + regex" where
  "after_repeat c greedy lazy_form =
     (if greedy then
        (if c = CHR ''?'' then Inr lazy_form
         else if c = CHR ''+'' then Inl Unsupported
         else Inl ReError)
      else Inl ReError)"

definition repeat_item :: "char \<Rightarrow> regex \<Rightarrow> py_error + regex" where
  "repeat_item c it =
     (case it of
        Bol \<Rightarrow> Inl ReError
      | Eol \<Rightarrow> Inl ReError
      | Opt g r \<Rightarrow> after_repeat c g (Opt False r)
      | Star g r \<Rightarrow> after_repeat c g (Star False r)
      | Plus g r \<Rightarrow> after_repeat c g (Plus False r)
      | _ \<Rightarrow> Inr (mk_repeat c it))"

definition repeat_step :: "pstate \<Rightarrow> char \<Rightarrow> py_error + pstate" where
  "repeat_step st c =
     (case cur_items st of
        [] \<Rightarrow> Inl ReError
      | it # its \<Rightarrow>
          (case repeat_item c it of
             Inl e \<Rightarrow> Inl e
           | Inr it' \<Rightarrow> Inr (st\<lparr>cur_items := it' # its\<rparr>)))"

definition normal_step :: "pstate \<Rightarrow> char \<Rightarrow> py_error + pstate" where
  "normal_step st c =
     (if c = CHR ''('' then
        Inr (st\<lparr>outer := (cur_grp st, cur_alts st, cur_items st) # outer st,
                cur_grp := Suc (ngroups st), ngroups := Suc (ngroups st),
                cur_alts := [], cur_items := [], mode := AfterOpen\<rparr>)
      else if c = CHR '')'' then
        (case outer st of
           [] \<Rightarrow> Inl ReError
         | (g, alts, items) # out \<Rightarrow>
             Inr (st\<lparr>cur_grp := g, cur_alts := alts,
                     cur_items := Grp (cur_grp st) (finish_sub (cur_alts st) (cur_items st)) # items,
                     outer := out\<rparr>))
      else if c = CHR ''|'' then
        Inr (st\<lparr>cur_alts := seq_of (rev (cur_items st)) # cur_alts st, cur_items := []\<rparr>)
      else if c = CHR ''*'' \<or> c = CHR ''+'' \<or> c = CHR ''?'' then repeat_step st c
      else if c = CHR ''['' then Inr (st\<lparr>mode := ClassOpen\<rparr>)
      else if c = CHR ''.'' then Inr (push_item st AnyChar)
      else if c = CHR ''^'' then Inr (push_item st Bol)
      else if c = CHR ''$'' then Inr (push_item st Eol)
      else if c = CHR 0x5C \<or> c = CHR ''{'' then Inl Unsupported
      else Inr (push_item st (Lit c)))"

text \<open>
  Inside a character set: \<^verbatim>\<open>]\<close> closes the set unless the set is still empty (then it is a
  member); a backslash or \<^verbatim>\<open>-\<close> is outside the fragment; any other character is a member.
\<close>

definition class_step :: "pstate \<Rightarrow> bool \<Rightarrow> char list \<Rightarrow> char \<Rightarrow> py_error + pstate" where
  "class_step st neg ms c =
     (if c = CHR '']'' \<and> ms \<noteq> [] then
        Inr ((push_item st (if neg then NotInSet (rev ms) else InSet (rev ms)))\<lparr>mode := Normal\<rparr>)
      else if c = CHR 0x5C \<or> c = CHR ''-'' then Inl Unsupported
      else Inr (st\<lparr>mode := ClassBody neg (c # ms)\<rparr>))"

definition name_char :: "char \<Rightarrow> bool" where
  "name_char c = (c \<in> set ''abcdefghijklmnopqrstuvwxyzABCDEFGHIJKLMNOPQRSTUVWXYZ_'')"

definition name_step :: "pstate \<Rightarrow> char list \<Rightarrow> char \<Rightarrow> py_error + pstate" where
  "name_step st n c =
     (if c = CHR ''>'' then
        (if n = [] then Inl ReError
         else if rev n \<in> set (map fst (gnames st)) then Inl ReError
         else Inr (st\<lparr>gnames := (rev n, cur_grp st) # gnames st, mode := Normal\<rparr>))
      else if name_char c then Inr (st\<lparr>mode := GroupName (c # n)\<rparr>)
      else Inl Unsupported)"

definition parse_step :: "pstate \<Rightarrow> char \<Rightarrow> py_error + pstate" where
  "parse_step st c =
     (case mode st of
        Normal \<Rightarrow> normal_step st c
      | AfterOpen \<Rightarrow>
          (if c = CHR ''?'' then Inr (st\<lparr>mode := ExtQ\<rparr>)
           else normal_step (st\<lparr>mode := Normal\<rparr>) c)
      | ExtQ \<Rightarrow> (if c = CHR ''P'' then Inr (st\<lparr>mode := ExtP\<rparr>) else Inl Unsupported)
      | ExtP \<Rightarrow> (if c = CHR ''<'' then Inr (st\<lparr>mode := GroupName []\<rparr>) else Inl Unsupported)
      | GroupName n \<Rightarrow> name_step st n c
      | ClassOpen \<Rightarrow>
          (if c = CHR ''^'' then Inr (st\<lparr>mode := ClassBody True []\<rparr>)
           else class_step st False [] c)
      | ClassBody neg ms \<Rightarrow> class_step st neg ms c)"

fun parse_chars :: "pstate \<Rightarrow> string \<Rightarrow> py_error + pstate" where
  "parse_chars st [] = Inr st"
| "parse_chars st (c # cs) =
     (case parse_step st c of Inl e \<Rightarrow> Inl e | Inr st' \<Rightarrow> parse_chars st' cs)"

definition parse_init :: pstate where
  "parse_init = \<lparr>cur_grp = 0, cur_alts = [], cur_items = [], outer = [], ngroups = 0,
                  gnames = [], mode = Normal\<rparr>"

text \<open>
  At the end of the pattern every group must be closed and no character set or group
  extension may be open; otherwise \<^verbatim>\<open>re.error\<close>.
\<close>

definition parse_finish :: "pstate \<Rightarrow> py_error + pattern" where
  "parse_finish st =
     (if mode st = Normal \<and> outer st = [] then
        Inr \<lparr>p_regex = finish_sub (cur_alts st) (cur_items st), p_groups = ngroups st,
             p_names = gnames st\<rparr>
      else Inl ReError)"

definition re_compile :: "string \<Rightarrow> py_error + pattern" where
  "re_compile pat =
     (case parse_chars parse_init pat of Inl e \<Rightarrow> Inl e | Inr st \<Rightarrow> parse_finish st)"

subsection \<open>Matching\<close>

text \<open>
  A matcher state is the text still to be read, the number of characters already read, and
  the captures made so far. \<open>ms r st\<close> is the list of states in which \<open>r\<close> can stop when
  started in \<open>st\<close>, in the order in which the backtracking engine of \<^verbatim>\<open>re\<close> tries them: the
  first alternative before the second, a greedy quantifier's longer matches before its shorter
  ones, a lazy one's shorter before its longer. The match \<^verbatim>\<open>re.match\<close> reports is the first
  state of the list.

  \<^verbatim>\<open>.\<close> matches any character but a newline; \<^verbatim>\<open>^\<close> matches at the start of the text; \<^verbatim>\<open>$\<close>
  matches at the end of the text and also just before a newline that ends the text (no flag
  is passed by the script). A group records the text its body read. An iteration of \<^verbatim>\<open>*\<close>
  that reads nothing is not followed by a further iteration.
\<close>

record mstate =
  rest :: string
  pos :: nat
  caps :: "nat \<Rightarrow> string option"

definition advance :: "mstate \<Rightarrow> mstate" where
  "advance st = st\<lparr>rest := tl (rest st), pos := Suc (pos st)\<rparr>"

definition one_char :: "(char \<Rightarrow> bool) \<Rightarrow> mstate \<Rightarrow> mstate list" where
  "one_char ok st =
     (case rest st of [] \<Rightarrow> [] | x # xs \<Rightarrow> if ok x then [advance st] else [])"

definition capture :: "nat \<Rightarrow> mstate \<Rightarrow> mstate \<Rightarrow> mstate" where
  "capture i st st' = st'\<lparr>caps := (caps st')(i \<mapsto> take (pos st' - pos st) (rest st))\<rparr>"

fun rsize :: "regex \<Rightarrow> nat" where
  "rsize (Seq r1 r2) = Suc (rsize r1 + rsize r2)"
| "rsize (Alt r1 r2) = Suc (rsize r1 + rsize r2)"
| "rsize (Grp i r) = Suc (rsize r)"
| "rsize (Opt g r) = Suc (rsize r)"
| "rsize (Star g r) = Suc (rsize r)"
| "rsize (Plus g r) = Suc (Suc (rsize r))"
| "rsize r = 0"

function ms :: "regex \<Rightarrow> mstate \<Rightarrow> mstate list" where
  "ms (Lit c) st = one_char (\<lambda>x. x = c) st"
| "ms AnyChar st = one_char (\<lambda>x. x \<noteq> NL) st"
| "ms (InSet cs) st = one_char (\<lambda>x. x \<in> set cs) st"
| "ms (NotInSet cs) st = one_char (\<lambda>x. x \<notin> set cs) st"
| "ms Bol st = (if pos st = 0 then [st] else [])"
| "ms Eol st = (if rest st = [] \<or> rest st = [NL] then [st] else [])"
| "ms Eps st = [st]"
| "ms (Seq r1 r2) st = concat (map (\<lambda>st'. ms r2 st') (ms r1 st))"
| "ms (Alt r1 r2) st = ms r1 st @ ms r2 st"
| "ms (Grp i r) st = map (capture i st) (ms r st)"
| "ms (Opt g r) st = (if g then ms r st @ [st] else st # ms r st)"
| "ms (Star g r) st =
     (let more = concat (map (\<lambda>st'. if length (rest st') < length (rest st)
                                       then ms (Star g r) st' else [st'])
                             (ms r st))
      in if g then more @ [st] else st # more)"
| "ms (Plus g r) st = concat (map (\<lambda>st'. ms (Star g r) st') (ms r st))"
  by pat_completeness auto
termination
  by (relation "measures [\<lambda>(r, st). rsize r, \<lambda>(r, st). length (rest st)]") auto

text \<open>
  The equation for \<^verbatim>\<open>*\<close> mentions itself on its right-hand side; it is unfolded by hand.
\<close>

declare ms.simps(12) [simp del]

text \<open>
  \<^verbatim>\<open>re.match(pattern, string)\<close>: the pattern is compiled first (\<^verbatim>\<open>re.error\<close> when it does not
  compile); a subject that is \<^verbatim>\<open>None\<close> then raises \<^verbatim>\<open>TypeError\<close>; otherwise the result is the
  match object of the first way the pattern matches at the start of the subject, or \<^verbatim>\<open>None\<close>.
\<close>

record match_obj =
  m_pattern :: pattern
  m_caps :: "nat \<Rightarrow> string option"

definition match_start :: "string \<Rightarrow> mstate" where
  "match_start s = \<lparr>rest = s, pos = 0, caps = (\<lambda>i. None)\<rparr>"

definition re_match :: "string \<Rightarrow> string option \<Rightarrow> py_error + match_obj option" where
  "re_match pat subject =
     (case re_compile pat of
        Inl e \<Rightarrow> Inl e
      | Inr p \<Rightarrow>
          (case subject of
             None \<Rightarrow> Inl TypeError
           | Some s \<Rightarrow>
               (case ms (p_regex p) (match_start s) of
                  [] \<Rightarrow> Inr None
                | st # _ \<Rightarrow> Inr (Some \<lparr>m_pattern = p, m_caps = caps st\<rparr>))))"

text \<open>\<^verbatim>\<open>match.groups()\<close>: the captures of groups 1 to n, \<open>None\<close> for a group that took no part.\<close>

definition groups :: "match_obj \<Rightarrow> string option list" where
  "groups m = map (m_caps m) [1 ..< Suc (p_groups (m_pattern m))]"

text \<open>\<^verbatim>\<open>match.groupdict()[name]\<close> for a name the pattern defines.\<close>

definition group_named :: "match_obj \<Rightarrow> string \<Rightarrow> string option" where
  "group_named m name =
     (case map_of (p_names (m_pattern m)) name of None \<Rightarrow> None | Some i \<Rightarrow> m_caps m i)"

section \<open>The functions of \<^verbatim>\<open>os.path\<close> the script calls\<close>

text \<open>
  \<^verbatim>\<open>os.path\<close> is \<^verbatim>\<open>posixpath\<close>; the definitions follow its source. The current directory
  (\<^verbatim>\<open>os.getcwd()\<close>), which \<^verbatim>\<open>abspath\<close> consults for a relative path, is the parameter \<open>cwd\<close>.
\<close>

fun split_sep :: "string \<Rightarrow> string list" where
  "split_sep [] = [[]]"
| "split_sep (c # cs) =
     (if c = CHR ''/'' then [] # split_sep cs
      else (case split_sep cs of [] \<Rightarrow> [[c]] | w # ws \<Rightarrow> (c # w) # ws))"

fun join_sep :: "string list \<Rightarrow> string" where
  "join_sep [] = []"
| "join_sep [w] = w"
| "join_sep (w # ws) = w @ ''/'' @ join_sep ws"

definition isabs :: "string \<Rightarrow> bool" where
  "isabs p = (case p of [] \<Rightarrow> False | c # _ \<Rightarrow> c = CHR ''/'')"

definition join2 :: "string \<Rightarrow> string \<Rightarrow> string" where
  "join2 path b =
     (if isabs b then b
      else if path = [] \<or> last path = CHR ''/'' then path @ b
      else path @ ''/'' @ b)"

definition join :: "string \<Rightarrow> string list \<Rightarrow> string" where
  "join a ps = foldl join2 a ps"

fun norm_comp :: "nat \<Rightarrow> string list \<Rightarrow> string \<Rightarrow> string list" where
  "norm_comp initial_slashes new_comps part =
     (if part = [] \<or> part = ''.'' then new_comps
      else if part \<noteq> ''..'' \<or> (initial_slashes = 0 \<and> new_comps = [])
              \<or> (new_comps \<noteq> [] \<and> last new_comps = ''..'')
      then new_comps @ [part]
      else if new_comps \<noteq> [] then butlast new_comps
      else new_comps)"

definition normpath :: "string \<Rightarrow> string" where
  "normpath path =
     (if path = [] then ''.''
      else
        let initial_slashes =
              (if isabs path then
                 (if take 2 path = ''//'' \<and> take 3 path \<noteq> ''///'' then 2 else 1)
               else 0);
            comps = foldl (norm_comp initial_slashes) [] (split_sep path);
            path' = replicate initial_slashes CHR ''/'' @ join_sep comps
        in if path' = [] then ''.'' else path')"

definition abspath :: "string \<Rightarrow> string \<Rightarrow> string" where
  "abspath cwd path = normpath (if isabs path then path else join2 cwd path)"

fun common_prefix :: "'a list \<Rightarrow> 'a list \<Rightarrow> 'a list" where
  "common_prefix (x # xs) (y # ys) = (if x = y then x # common_prefix xs ys else [])"
| "common_prefix _ _ = []"

definition path_parts :: "string \<Rightarrow> string list" where
  "path_parts p = filter (\<lambda>x. x \<noteq> []) (split_sep p)"

definition relpath :: "string \<Rightarrow> string \<Rightarrow> string \<Rightarrow> py_error + string" where
  "relpath cwd path start =
     (if path = [] then Inl ValueError
      else
        let start_list = path_parts (abspath cwd start);
            path_list = path_parts (abspath cwd path);
            i = length (common_prefix start_list path_list);
            rel_list = replicate (length start_list - i) ''..'' @ drop i path_list
        in (case rel_list of [] \<Rightarrow> Inr ''.'' | r # rs \<Rightarrow> Inr (join r rs)))"

section \<open>\<^verbatim>\<open>SpecializedItem\<close>\<close>

text \<open>
  The class attributes \<^verbatim>\<open>SpecializedItem.username\<close> and \<^verbatim>\<open>SpecializedItem.host\<close>, set once by
  \<^verbatim>\<open>main\<close> from the command line, are passed to each function as an \<open>identity\<close>.
  \<^verbatim>\<open>destination\<close> and \<^verbatim>\<open>_specialization\<close> are \<^verbatim>\<open>None\<close> or a string.
\<close>

record identity =
  username :: string
  host :: string

record item =
  filename :: string
  directory :: string
  destination :: "string option"
  specialization :: "string option"

text \<open>Python's truth value of a value that is \<^verbatim>\<open>None\<close> or a string.\<close>

definition truthy :: "string option \<Rightarrow> bool" where
  "truthy v = (case v of None \<Rightarrow> False | Some s \<Rightarrow> s \<noteq> [])"

definition expression_matcher :: string where
  "expression_matcher = ''^(?P<name>.+?)(<(?P<specialization>[^<]*?)>$)?$''"

definition split_specialization :: "item \<Rightarrow> py_error + item" where
  "split_specialization it =
     (case re_match expression_matcher (Some (filename it)) of
        Inl e \<Rightarrow> Inl e
      | Inr None \<Rightarrow> Inr it
      | Inr (Some matcher) \<Rightarrow>
          Inr (it\<lparr>specialization := group_named matcher ''specialization'',
                  destination := group_named matcher ''name''\<rparr>))"

definition SpecializedItem :: "string \<Rightarrow> string \<Rightarrow> py_error + item" where
  "SpecializedItem dir name =
     split_specialization
       \<lparr>filename = name, directory = dir, destination = None, specialization = None\<rparr>"

text \<open>The two patterns built with \<^verbatim>\<open>str.format\<close>: the identity is pasted in as pattern text.\<close>

definition valid_matcher :: "identity \<Rightarrow> string" where
  "valid_matcher ident =
     ''^('' @ host ident @ ''|'' @ username ident @ ''(@'' @ host ident @ '')?)$''"

definition priority_matcher :: "identity \<Rightarrow> string" where
  "priority_matcher ident =
     ''^('' @ host ident @ ''|('' @ username ident @ ''(@'' @ host ident @ '')?))$''"

definition is_valid :: "identity \<Rightarrow> item \<Rightarrow> py_error + bool" where
  "is_valid ident it =
     (if truthy (destination it) \<and> specialization it = None then Inr True
      else
        (case re_match (valid_matcher ident) (specialization it) of
           Inl e \<Rightarrow> Inl e
         | Inr r \<Rightarrow> Inr (r \<noteq> None)))"

definition get_priority :: "identity \<Rightarrow> item \<Rightarrow> py_error + int" where
  "get_priority ident it =
     (if \<not> truthy (specialization it) then Inr 0
      else
        (case re_match (priority_matcher ident) (specialization it) of
           Inl e \<Rightarrow> Inl e
         | Inr None \<Rightarrow> Inr (- 1)
         | Inr (Some m) \<Rightarrow> Inr (int (length (filter truthy (groups m))))))"

section \<open>\<^verbatim>\<open>SymlinkContainer\<close>\<close>

record entry =
  source :: string
  priority :: int

record symlinks =
  container :: "string \<rightharpoonup> entry"
  src_root :: string
  dst_root :: string

definition SymlinkContainer :: "string \<Rightarrow> string \<Rightarrow> symlinks" where
  "SymlinkContainer source_root destination_root =
     \<lparr>container = Map.empty, src_root = source_root, dst_root = destination_root\<rparr>"

text \<open>
  \<^verbatim>\<open>add\<close> computes the destination path and the priority before it looks at the map, so
  whether it raises depends on the item only: \<^verbatim>\<open>relpath\<close> raises \<^verbatim>\<open>ValueError\<close> on an empty
  directory, \<^verbatim>\<open>os.path.join\<close> raises \<^verbatim>\<open>TypeError\<close> when \<^verbatim>\<open>item.destination\<close> is \<^verbatim>\<open>None\<close>, and
  \<^verbatim>\<open>get_priority\<close> raises when its pattern does not compile.
\<close>

definition add_dst :: "string \<Rightarrow> symlinks \<Rightarrow> item \<Rightarrow> py_error + string" where
  "add_dst cwd c it =
     (case relpath cwd (directory it) (src_root c) of
        Inl e \<Rightarrow> Inl e
      | Inr rel \<Rightarrow>
          (case destination it of
             None \<Rightarrow> Inl TypeError
           | Some d \<Rightarrow> Inr (abspath cwd (join (join (dst_root c) [rel]) [d]))))"

definition add_src :: "symlinks \<Rightarrow> item \<Rightarrow> string" where
  "add_src c it = join (src_root c) [directory it, filename it]"

definition add :: "identity \<Rightarrow> string \<Rightarrow> symlinks \<Rightarrow> item \<Rightarrow> py_error + symlinks" where
  "add ident cwd c it =
     (case add_dst cwd c it of
        Inl e \<Rightarrow> Inl e
      | Inr dst \<Rightarrow>
          (case get_priority ident it of
             Inl e \<Rightarrow> Inl e
           | Inr prio \<Rightarrow>
               (if (case container c dst of None \<Rightarrow> True | Some e \<Rightarrow> priority e < prio)
                then Inr (c\<lparr>container := (container c)(dst \<mapsto>
                               \<lparr>source = add_src c it, priority = prio\<rparr>)\<rparr>)
                else Inr c)))"

fun add_all :: "identity \<Rightarrow> string \<Rightarrow> symlinks \<Rightarrow> item list \<Rightarrow> py_error + symlinks" where
  "add_all ident cwd c [] = Inr c"
| "add_all ident cwd c (it # its) =
     (case add ident cwd c it of Inl e \<Rightarrow> Inl e | Inr c' \<Rightarrow> add_all ident cwd c' its)"

section \<open>The loop of \<^verbatim>\<open>main\<close> over the files of the walk\<close>

text \<open>
  \<^verbatim>\<open>ignored\<close> is the predicate made from the ignore file (an external input). For each file
  name of a directory the loop builds the item, skips it when it is not valid or ignored, and
  adds it otherwise. An exception ends the run.
\<close>

definition process_file ::
  "identity \<Rightarrow> (string \<Rightarrow> bool) \<Rightarrow> string \<Rightarrow> symlinks \<Rightarrow> string \<Rightarrow> string
     \<Rightarrow> py_error + symlinks" where
  "process_file ident ignored cwd c root name =
     (case SpecializedItem root name of
        Inl e \<Rightarrow> Inl e
      | Inr it \<Rightarrow>
          (case is_valid ident it of
             Inl e \<Rightarrow> Inl e
           | Inr v \<Rightarrow>
               (if v \<and> \<not> ignored (filename it) then add ident cwd c it else Inr c)))"

fun process_files ::
  "identity \<Rightarrow> (string \<Rightarrow> bool) \<Rightarrow> string \<Rightarrow> symlinks \<Rightarrow> string \<Rightarrow> string list
     \<Rightarrow> py_error + symlinks" where
  "process_files ident ignored cwd c root [] = Inr c"
| "process_files ident ignored cwd c root (name # names) =
     (case process_file ident ignored cwd c root name of
        Inl e \<Rightarrow> Inl e
      | Inr c' \<Rightarrow> process_files ident ignored cwd c' root names)"

fun walk_loop ::
  "identity \<Rightarrow> (string \<Rightarrow> bool) \<Rightarrow> string \<Rightarrow> symlinks \<Rightarrow> (string \<times> string list) list
     \<Rightarrow> py_error + symlinks" where
  "walk_loop ident ignored cwd c [] = Inr c"
| "walk_loop ident ignored cwd c ((root, files) # dirs) =
     (case relpath cwd root (src_root c) of
        Inl e \<Rightarrow> Inl e
      | Inr rel_subroot \<Rightarrow>
          (if ignored rel_subroot then walk_loop ident ignored cwd c dirs
           else
             (case process_files ident ignored cwd c root files of
                Inl e \<Rightarrow> Inl e
              | Inr c' \<Rightarrow> walk_loop ident ignored cwd c' dirs)))"

section \<open>Notions used to state the properties\<close>

text \<open>
  What \<^verbatim>\<open>add\<close> computes from an item before it consults the map: the destination path and the
  entry (source path and priority) it would store there.
\<close>

definition candidate ::
  "identity \<Rightarrow> string \<Rightarrow> symlinks \<Rightarrow> item \<Rightarrow> py_error + string \<times> entry" where
  "candidate ident cwd c it =
     (case add_dst cwd c it of
        Inl e \<Rightarrow> Inl e
      | Inr dst \<Rightarrow>
          (case get_priority ident it of
             Inl e \<Rightarrow> Inl e
           | Inr prio \<Rightarrow> Inr (dst, \<lparr>source = add_src c it, priority = prio\<rparr>)))"

fun candidates ::
  "identity \<Rightarrow> string \<Rightarrow> symlinks \<Rightarrow> item list \<Rightarrow> py_error + (string \<times> entry) list" where
  "candidates ident cwd c [] = Inr []"
| "candidates ident cwd c (it # its) =
     (case candidate ident cwd c it of
        Inl e \<Rightarrow> Inl e
      | Inr x \<Rightarrow>
          (case candidates ident cwd c its of Inl e \<Rightarrow> Inl e | Inr xs \<Rightarrow> Inr (x # xs)))"

text \<open>
  The entry the specification asks for, in its words: among the candidates for a destination,
  in the order in which they were added, the first one whose priority is the maximum of their
  priorities; no entry when there is no candidate for the destination.
\<close>

definition first_max :: "entry list \<Rightarrow> entry option" where
  "first_max es =
     (case es of
        [] \<Rightarrow> None
      | _ # _ \<Rightarrow> find (\<lambda>e. priority e = Max (set (map priority es))) es)"

definition spec_entry :: "(string \<times> entry) list \<Rightarrow> string \<Rightarrow> entry option" where
  "spec_entry cs d = first_max (map snd (filter (\<lambda>x. fst x = d) cs))"

text \<open>The replacement rule of the specification's state machine for one destination.\<close>

definition store :: "symlinks \<Rightarrow> string \<times> entry \<Rightarrow> symlinks" where
  "store c x =
     (case container c (fst x) of
        None \<Rightarrow> c\<lparr>container := (container c)(fst x \<mapsto> snd x)\<rparr>
      | Some old \<Rightarrow>
          if priority old < priority (snd x)
          then c\<lparr>container := (container c)(fst x \<mapsto> snd x)\<rparr>
          else c)"

text \<open>Two items tie when both can be added, to the same destination, with equal priority.\<close>

definition tie :: "identity \<Rightarrow> string \<Rightarrow> symlinks \<Rightarrow> item \<Rightarrow> item \<Rightarrow> bool" where
  "tie ident cwd c x y =
     (case candidate ident cwd c x of
        Inl _ \<Rightarrow> False
      | Inr a \<Rightarrow>
          (case candidate ident cwd c y of
             Inl _ \<Rightarrow> False
           | Inr b \<Rightarrow> fst a = fst b \<and> priority (snd a) = priority (snd b)))"

text \<open>
  A string is plain when none of its characters is special in a pattern, so that pasted into
  a pattern it stands for itself.
\<close>

definition plain_char :: "char \<Rightarrow> bool" where
  "plain_char c = (c \<notin> set special_chars)"

definition plain :: "string \<Rightarrow> bool" where
  "plain s = list_all plain_char s"

text \<open>
  The patterns the script builds from a plain user name \<open>U\<close> and a plain host name \<open>H\<close>, as
  \<open>re_compile\<close> reads them (lemmas \<open>compile_valid\<close> and \<open>compile_priority\<close>). \<open>lits_then s rs\<close>
  is the literal text \<open>s\<close> followed by the items \<open>rs\<close>.
\<close>

definition lits_then :: "string \<Rightarrow> regex list \<Rightarrow> regex" where
  "lits_then s rs = seq_of (map Lit s @ rs)"

definition literal_valid_regex :: "string \<Rightarrow> string \<Rightarrow> regex" where
  "literal_valid_regex U H =
     Seq Bol (Seq (Grp 1 (Alt (lits_then H [])
                              (lits_then U [Opt True (Grp 2 (lits_then (CHR ''@'' # H) []))])))
             (Seq Eol Eps))"

definition literal_priority_regex :: "string \<Rightarrow> string \<Rightarrow> regex" where
  "literal_priority_regex U H =
     Seq Bol (Seq (Grp 1 (Alt (lits_then H [])
                              (Seq (Grp 2 (lits_then U [Opt True (Grp 3 (lits_then (CHR ''@'' # H) []))]))
                                   Eps)))
             (Seq Eol Eps))"

text \<open>The matcher state after reading \<open>n\<close> characters.\<close>

definition skip :: "nat \<Rightarrow> mstate \<Rightarrow> mstate" where
  "skip n st = st\<lparr>rest := drop n (rest st), pos := pos st + n\<rparr>"

text \<open>
  What it means for a subject \<open>q\<close> to match the literal text \<open>L\<close> followed by \<^verbatim>\<open>$\<close>: \<open>q\<close> is \<open>L\<close>,
  or \<open>L\<close> followed by one newline.
\<close>

definition matches_lit :: "string \<Rightarrow> string \<Rightarrow> bool" where
  "matches_lit L q = (q = L \<or> q = L @ [NL])"

text \<open>The captures of groups 1 to 3 in a matcher state.\<close>

definition groups3 :: "mstate \<Rightarrow> string option list" where
  "groups3 st = [caps st 1, caps st 2, caps st 3]"

text \<open>A qualifier that is absent, empty, or does not end with a newline.\<close>

definition no_final_newline :: "string option \<Rightarrow> bool" where
  "no_final_newline v = (case v of None \<Rightarrow> True | Some q \<Rightarrow> q = [] \<or> last q \<noteq> NL)"

text \<open>The entry a run leaves at one destination, or the exception that ended the run.\<close>

definition entry_at :: "string \<Rightarrow> py_error + symlinks \<Rightarrow> py_error + entry option" where
  "entry_at d r = (case r of Inl e \<Rightarrow> Inl e | Inr c \<Rightarrow> Inr (container c d))"

text \<open>A map in which no stored priority is negative.\<close>

definition nonneg :: "symlinks \<Rightarrow> bool" where
  "nonneg c = (\<forall>d e. container c d = Some e \<longrightarrow> 0 \<le> priority e)"

text \<open>
  Two parts of the file-name pattern of \<^verbatim>\<open>_split_specialization\<close>, as \<open>re_compile\<close> reads
  it (lemma \<open>compile_expression_tail\<close>): the text \<^verbatim>\<open><(?P<specialization>[^<]*?)>$\<close> inside the
  optional group, and everything after the group \<^verbatim>\<open>name\<close>.
\<close>

definition qualifier_body :: regex where
  "qualifier_body =
     Seq (Lit CHR ''<'')
       (Seq (Grp 3 (Seq (Star False (NotInSet ''<'')) Eps))
         (Seq (Lit CHR ''>'') (Seq Eol Eps)))"

definition name_tail :: regex where
  "name_tail = Seq (Opt True (Grp 2 qualifier_body)) (Seq Eol Eps)"

section \<open>The map of \<^verbatim>\<open>SymlinkContainer\<close>\<close>

lemma add_candidate:
  "add ident cwd c it =
     (case candidate ident cwd c it of Inl e \<Rightarrow> Inl e | Inr x \<Rightarrow> Inr (store c x))"
  by (simp add: add_def candidate_def store_def split: sum.splits option.splits)

lemma candidate_roots:
  "src_root c' = src_root c \<Longrightarrow> dst_root c' = dst_root c \<Longrightarrow>
   candidate ident cwd c' it = candidate ident cwd c it"
  by (simp add: candidate_def add_dst_def add_src_def split: sum.splits option.splits)

lemma store_roots [simp]:
  "src_root (store c x) = src_root c" "dst_root (store c x) = dst_root c"
  by (simp_all add: store_def split: option.splits)

lemma store_twice: "store (store c x) x = store c x"
  by (cases x) (auto simp: store_def split: option.splits)

text \<open>
  Claim C9. \<^verbatim>\<open>add\<close> is idempotent: adding the same item twice in succession leaves the
  container as adding it once does (and when the first call raises, so does the pair). This
  holds for every item and every container, valid items included.
\<close>

theorem add_idempotent:
  "(case add ident cwd c it of Inl e \<Rightarrow> Inl e | Inr c' \<Rightarrow> add ident cwd c' it) =
   add ident cwd c it"
proof (cases "candidate ident cwd c it")
  case (Inl e)
  then show ?thesis by (simp add: add_candidate)
next
  case (Inr x)
  have "candidate ident cwd (store c x) it = candidate ident cwd c it"
    by (rule candidate_roots) simp_all
  with Inr show ?thesis by (simp add: add_candidate store_twice)
qed

lemma first_max_Nil [simp]: "first_max [] = None"
  by (simp add: first_max_def)

lemma first_max_Some:
  assumes "es \<noteq> []"
  shows "\<exists>e. first_max es = Some e \<and> e \<in> set es \<and> priority e = Max (set (map priority es))"
proof -
  have "Max (set (map priority es)) \<in> set (map priority es)"
    using assms by (intro Max_in) auto
  then obtain e0 where e0: "e0 \<in> set es" "priority e0 = Max (set (map priority es))" by auto
  then obtain e where "find (\<lambda>e. priority e = Max (set (map priority es))) es = Some e"
    by (cases "find (\<lambda>e. priority e = Max (set (map priority es))) es") (auto simp: find_None_iff)
  moreover from this have "e \<in> set es \<and> priority e = Max (set (map priority es))"
    by (auto simp: find_Some_iff)
  ultimately show ?thesis using assms by (cases es) (auto simp: first_max_def)
qed

lemma find_app:
  "find P (xs @ ys) = (case find P xs of None \<Rightarrow> find P ys | Some x \<Rightarrow> Some x)"
  by (induction xs) auto

lemma first_max_snoc:
  "first_max (es @ [e]) =
     (case first_max es of None \<Rightarrow> Some e
      | Some old \<Rightarrow> if priority old < priority e then Some e else Some old)"
proof (cases "es = []")
  case True
  then show ?thesis by (simp add: first_max_def)
next
  case False
  then obtain old where old: "first_max es = Some old" "old \<in> set es"
      "priority old = Max (set (map priority es))"
    using first_max_Some by blast
  let ?M = "Max (set (map priority es))"
  have le: "\<And>x. x \<in> set es \<Longrightarrow> priority x \<le> ?M" by simp
  have M': "Max (set (map priority (es @ [e]))) = max (priority e) ?M"
    using False by simp
  have fm: "first_max (es @ [e]) = find (\<lambda>x. priority x = max (priority e) ?M) (es @ [e])"
    using M' by (cases es) (simp_all add: first_max_def)
  have fo: "find (\<lambda>x. priority x = ?M) es = Some old"
    using old(1) False by (cases es) (simp_all add: first_max_def)
  show ?thesis
  proof (cases "priority old < priority e")
    case True
    then have "max (priority e) ?M = priority e" using old(3) by simp
    moreover have "find (\<lambda>x. priority x = priority e) es = None"
    proof -
      have "\<And>x. x \<in> set es \<Longrightarrow> priority x \<noteq> priority e"
        using le True old(3) by fastforce
      then show ?thesis by (simp add: find_None_iff)
    qed
    ultimately show ?thesis using fm old True by (simp add: find_app)
  next
    case False
    then have "max (priority e) ?M = ?M" using old(3) by simp
    then show ?thesis using fm fo old False by (simp add: find_app)
  qed
qed

lemma spec_entry_snoc:
  "spec_entry (cs @ [x]) d =
     (if fst x = d then
        (case spec_entry cs d of None \<Rightarrow> Some (snd x)
         | Some old \<Rightarrow> if priority old < priority (snd x) then Some (snd x) else Some old)
      else spec_entry cs d)"
  by (simp add: spec_entry_def first_max_snoc)

lemma container_store:
  "container c = spec_entry cs \<Longrightarrow> container (store c x) = spec_entry (cs @ [x])"
  by (rule ext) (auto simp: store_def spec_entry_snoc split: option.splits)

lemma add_all_snoc:
  "add_all ident cwd c (its @ [it]) =
     (case add_all ident cwd c its of Inl e \<Rightarrow> Inl e | Inr c' \<Rightarrow> add ident cwd c' it)"
  by (induction its arbitrary: c) (auto split: sum.splits)

lemma candidates_snoc:
  "candidates ident cwd c (its @ [it]) =
     (case candidates ident cwd c its of
        Inl e \<Rightarrow> Inl e
      | Inr xs \<Rightarrow> (case candidate ident cwd c it of Inl e \<Rightarrow> Inl e | Inr x \<Rightarrow> Inr (xs @ [x])))"
  by (induction its) (auto split: sum.splits)

lemma add_all_spec:
  assumes "container c0 = Map.empty"
  shows "(case add_all ident cwd c0 its of
            Inl e \<Rightarrow> candidates ident cwd c0 its = Inl e
          | Inr c \<Rightarrow> src_root c = src_root c0 \<and> dst_root c = dst_root c0 \<and>
                     (\<exists>cs. candidates ident cwd c0 its = Inr cs \<and> container c = spec_entry cs))"
proof (induction its rule: rev_induct)
  case Nil
  show ?case using assms by (auto simp: spec_entry_def)
next
  case (snoc it its)
  show ?case
  proof (cases "add_all ident cwd c0 its")
    case (Inl e)
    with snoc show ?thesis by (simp add: add_all_snoc candidates_snoc)
  next
    case (Inr c)
    with snoc obtain cs where c: "src_root c = src_root c0" "dst_root c = dst_root c0"
        "candidates ident cwd c0 its = Inr cs" "container c = spec_entry cs"
      by auto
    have cand: "candidate ident cwd c it = candidate ident cwd c0 it"
      using c(1,2) by (rule candidate_roots)
    show ?thesis
      using Inr c cand container_store[OF c(4)]
      by (auto simp: add_all_snoc candidates_snoc add_candidate split: sum.splits)
  qed
qed


lemma candidates_Inr_iff:
  "(\<exists>cs. candidates ident cwd c its = Inr cs) \<longleftrightarrow>
   (\<forall>it \<in> set its. \<exists>x. candidate ident cwd c it = Inr x)"
  by (induction its) (auto split: sum.splits)

lemma candidates_set:
  "candidates ident cwd c its = Inr cs \<Longrightarrow>
   set cs = {x. \<exists>it \<in> set its. candidate ident cwd c it = Inr x}"
  by (induction its arbitrary: cs) (auto split: sum.splits)

lemma first_max_set:
  assumes "set es' = set es"
    and inj: "\<And>a b. a \<in> set es \<Longrightarrow> b \<in> set es \<Longrightarrow> priority a = priority b \<Longrightarrow> a = b"
  shows "first_max es' = first_max es"
proof (cases "es = []")
  case True
  with assms(1) show ?thesis by simp
next
  case False
  with assms(1) have ne: "es' \<noteq> []" by auto
  obtain e where e: "first_max es = Some e" "e \<in> set es"
      "priority e = Max (set (map priority es))"
    using first_max_Some[OF False] by blast
  obtain e' where e': "first_max es' = Some e'" "e' \<in> set es'"
      "priority e' = Max (set (map priority es'))"
    using first_max_Some[OF ne] by blast
  have "priority e' = priority e" using e(3) e'(3) assms(1) by simp
  then have "e' = e" using inj e(2) e'(2) assms(1) by auto
  with e e' show ?thesis by simp
qed

lemma spec_entry_set:
  assumes "set cs' = set cs"
    and inj: "\<And>x y. x \<in> set cs \<Longrightarrow> y \<in> set cs \<Longrightarrow> fst x = fst y \<Longrightarrow>
                priority (snd x) = priority (snd y) \<Longrightarrow> x = y"
  shows "spec_entry cs' = spec_entry cs"
proof (rule ext)
  fix d
  show "spec_entry cs' d = spec_entry cs d"
    unfolding spec_entry_def
  proof (rule first_max_set)
    show "set (map snd (filter (\<lambda>x. fst x = d) cs')) = set (map snd (filter (\<lambda>x. fst x = d) cs))"
      using assms(1) by simp
  next
    fix a b
    assume "a \<in> set (map snd (filter (\<lambda>x. fst x = d) cs))"
      and "b \<in> set (map snd (filter (\<lambda>x. fst x = d) cs))"
      and p: "priority a = priority b"
    then have "(d, a) \<in> set cs" "(d, b) \<in> set cs" by auto
    from inj[OF this] p show "a = b" by simp
  qed
qed

text \<open>
  Claim C8. The items of one run are fed to a fresh container in the order \<open>xs\<close> and the run
  succeeds. When no two different items tie (same destination, equal priority), feeding them in
  any other order \<open>ys\<close> of the same items succeeds as well and ends with the same map: the same
  entries, and so the same destination-to-source mapping. Valid candidate files are such
  items; validity itself is not needed for the statement.
\<close>

theorem order_independent:
  assumes perm: "mset ys = mset xs"
    and run: "add_all ident cwd (SymlinkContainer sr dr) xs = Inr c"
    and ties: "\<forall>x \<in> set xs. \<forall>y \<in> set xs. x \<noteq> y \<longrightarrow> \<not> tie ident cwd (SymlinkContainer sr dr) x y"
  shows "\<exists>c'. add_all ident cwd (SymlinkContainer sr dr) ys = Inr c' \<and> container c' = container c
           \<and> (\<forall>d. map_option source (container c' d) = map_option source (container c d))"
proof -
  let ?C = "SymlinkContainer sr dr"
  have empty: "container ?C = Map.empty" by (simp add: SymlinkContainer_def)
  have sets: "set ys = set xs" using perm by (rule mset_eq_setD)
  from add_all_spec[OF empty, of ident cwd xs] run
  obtain cs where cs: "candidates ident cwd ?C xs = Inr cs" "container c = spec_entry cs"
    by auto
  then have "\<forall>it \<in> set ys. \<exists>x. candidate ident cwd ?C it = Inr x"
    using candidates_Inr_iff[of ident cwd ?C xs] sets by auto
  then obtain cs' where cs': "candidates ident cwd ?C ys = Inr cs'"
    using candidates_Inr_iff[of ident cwd ?C ys] by auto
  with add_all_spec[OF empty, of ident cwd ys]
  obtain c' where c': "add_all ident cwd ?C ys = Inr c'" "container c' = spec_entry cs'"
    by (cases "add_all ident cwd ?C ys") auto
  have set_eq: "set cs' = set cs"
    using candidates_set[OF cs(1)] candidates_set[OF cs'] sets by simp
  have "spec_entry cs' = spec_entry cs"
  proof (rule spec_entry_set[OF set_eq])
    fix x y
    assume x: "x \<in> set cs" and y: "y \<in> set cs" and d: "fst x = fst y"
      and p: "priority (snd x) = priority (snd y)"
    from x y candidates_set[OF cs(1)] obtain i j where
      i: "i \<in> set xs" "candidate ident cwd ?C i = Inr x" and
      j: "j \<in> set xs" "candidate ident cwd ?C j = Inr y"
      by auto
    have "tie ident cwd ?C i j" using i(2) j(2) d p by (simp add: tie_def)
    with ties i(1) j(1) have "i = j" by blast
    with i(2) j(2) show "x = y" by simp
  qed
  with c' cs(2) show ?thesis by simp
qed



text \<open>Two concrete candidates, evaluated.\<close>

lemma cand_host: "candidate \<lparr>username = ''alice'', host = ''box1''\<rparr> ''/'' (SymlinkContainer ''/src'' ''/out'')
   \<lparr>filename = ''cfg<box1>'', directory = ''/src'', destination = Some ''cfg'', specialization = Some ''box1''\<rparr>
   = Inr (''/out/cfg'', \<lparr>source = ''/src/cfg<box1>'', priority = 1\<rparr>)"
  by code_simp

lemma cand_plain: "candidate \<lparr>username = ''alice'', host = ''box1''\<rparr> ''/'' (SymlinkContainer ''/src'' ''/out'')
   \<lparr>filename = ''cfg'', directory = ''/src'', destination = Some ''cfg'', specialization = None\<rparr>
   = Inr (''/out/cfg'', \<lparr>source = ''/src/cfg'', priority = 0\<rparr>)"
  by code_simp


text \<open>
  Claim C3. After any sequence of \<^verbatim>\<open>add\<close> calls on a fresh container that ends without an
  exception, the map (one entry per destination by its type) holds for every destination
  exactly the entry the specification describes: none when no item was added for it, and
  otherwise the first added candidate whose priority is the maximum among the candidates for
  that destination. A single \<^verbatim>\<open>add\<close> inserts when the destination has no entry, replaces the
  incumbent exactly when the new priority is strictly greater, and otherwise (equal or lower)
  leaves the container unchanged.
\<close>

theorem map_holds_first_maximum:
  assumes "add_all ident cwd (SymlinkContainer sr dr) its = Inr c"
  shows "(\<exists>cs. candidates ident cwd (SymlinkContainer sr dr) its = Inr cs \<and>
              container c = spec_entry cs)
       \<and> (\<forall>c1 it d e. candidate ident cwd c1 it = Inr (d, e) \<longrightarrow>
             add ident cwd c1 it =
               Inr (case container c1 d of
                      None \<Rightarrow> c1\<lparr>container := (container c1)(d \<mapsto> e)\<rparr>
                    | Some old \<Rightarrow>
                        if priority old < priority e
                        then c1\<lparr>container := (container c1)(d \<mapsto> e)\<rparr>
                        else c1))"
proof
  have "container (SymlinkContainer sr dr) = Map.empty" by (simp add: SymlinkContainer_def)
  from add_all_spec[OF this, of ident cwd its] assms
  show "\<exists>cs. candidates ident cwd (SymlinkContainer sr dr) its = Inr cs \<and>
             container c = spec_entry cs"
    by auto
next
  show "\<forall>c1 it d e. candidate ident cwd c1 it = Inr (d, e) \<longrightarrow>
             add ident cwd c1 it =
               Inr (case container c1 d of
                      None \<Rightarrow> c1\<lparr>container := (container c1)(d \<mapsto> e)\<rparr>
                    | Some old \<Rightarrow>
                        if priority old < priority e
                        then c1\<lparr>container := (container c1)(d \<mapsto> e)\<rparr>
                        else c1)"
    by (simp add: add_candidate store_def split: option.splits)
qed

theorem map_holds_first_maximum_witness:
  "\<exists>c. add_all \<lparr>username = ''alice'', host = ''box1''\<rparr> ''/'' (SymlinkContainer ''/src'' ''/out'')
          [\<lparr>filename = ''cfg'', directory = ''/src'', destination = Some ''cfg'', specialization = None\<rparr>,
           \<lparr>filename = ''cfg<box1>'', directory = ''/src'', destination = Some ''cfg'', specialization = Some ''box1''\<rparr>,
           \<lparr>filename = ''cfg'', directory = ''/src'', destination = Some ''cfg'', specialization = None\<rparr>]
        = Inr c
      \<and> container c ''/out/cfg'' = Some \<lparr>source = ''/src/cfg<box1>'', priority = 1\<rparr>
      \<and> container c ''/out/other'' = None"
proof -
  let ?I = "\<lparr>username = ''alice'', host = ''box1''\<rparr>"
  let ?C = "SymlinkContainer ''/src'' ''/out''"
  let ?a = "\<lparr>filename = ''cfg'', directory = ''/src'', destination = Some ''cfg'', specialization = None\<rparr>"
  let ?b = "\<lparr>filename = ''cfg<box1>'', directory = ''/src'', destination = Some ''cfg'', specialization = Some ''box1''\<rparr>"
  have roots: "\<And>c x. candidate ?I ''/'' (store c x) = candidate ?I ''/'' c"
    by (rule ext, rule candidate_roots) simp_all
  obtain c where c: "add_all ?I ''/'' ?C [?a, ?b, ?a] = Inr c"
    by (simp add: add_candidate roots cand_host cand_plain)
  from map_holds_first_maximum[OF c]
  obtain cs where cs: "candidates ?I ''/'' ?C [?a, ?b, ?a] = Inr cs" "container c = spec_entry cs"
    by blast
  from cs(1) have "cs = [(''/out/cfg'', \<lparr>source = ''/src/cfg'', priority = 0\<rparr>),
                         (''/out/cfg'', \<lparr>source = ''/src/cfg<box1>'', priority = 1\<rparr>),
                         (''/out/cfg'', \<lparr>source = ''/src/cfg'', priority = 0\<rparr>)]"
    by (simp add: cand_host cand_plain)
  with cs(2) have "container c ''/out/cfg'' = Some \<lparr>source = ''/src/cfg<box1>'', priority = 1\<rparr>"
      "container c ''/out/other'' = None"
    by (simp_all add: spec_entry_def first_max_def)
  with c show ?thesis by blast
qed

theorem order_independent_witness:
  "\<exists>c c'. add_all \<lparr>username = ''alice'', host = ''box1''\<rparr> ''/'' (SymlinkContainer ''/src'' ''/out'')
          [\<lparr>filename = ''cfg'', directory = ''/src'', destination = Some ''cfg'', specialization = None\<rparr>,
           \<lparr>filename = ''cfg<box1>'', directory = ''/src'', destination = Some ''cfg'', specialization = Some ''box1''\<rparr>]
        = Inr c
      \<and> add_all \<lparr>username = ''alice'', host = ''box1''\<rparr> ''/'' (SymlinkContainer ''/src'' ''/out'')
          [\<lparr>filename = ''cfg<box1>'', directory = ''/src'', destination = Some ''cfg'', specialization = Some ''box1''\<rparr>,
           \<lparr>filename = ''cfg'', directory = ''/src'', destination = Some ''cfg'', specialization = None\<rparr>]
        = Inr c'
      \<and> container c' = container c"
proof -
  let ?I = "\<lparr>username = ''alice'', host = ''box1''\<rparr>"
  let ?C = "SymlinkContainer ''/src'' ''/out''"
  let ?a = "\<lparr>filename = ''cfg'', directory = ''/src'', destination = Some ''cfg'', specialization = None\<rparr>"
  let ?b = "\<lparr>filename = ''cfg<box1>'', directory = ''/src'', destination = Some ''cfg'', specialization = Some ''box1''\<rparr>"
  have roots: "\<And>c x. candidate ?I ''/'' (store c x) = candidate ?I ''/'' c"
    by (rule ext, rule candidate_roots) simp_all
  obtain c where c: "add_all ?I ''/'' ?C [?a, ?b] = Inr c"
    by (simp add: add_candidate roots cand_host cand_plain)
  have perm: "mset [?b, ?a] = mset [?a, ?b]" by simp
  have ties: "\<forall>x \<in> set [?a, ?b]. \<forall>y \<in> set [?a, ?b]. x \<noteq> y \<longrightarrow> \<not> tie ?I ''/'' ?C x y"
    by (simp add: tie_def cand_host cand_plain)
  from order_independent[OF perm c ties] c show ?thesis by blast
qed

section \<open>Patterns built from a plain identity\<close>

lemma plain_char_neq:
  assumes "plain_char c"
  shows "c \<noteq> CHR ''(''" "c \<noteq> CHR '')''" "c \<noteq> CHR ''|''" "c \<noteq> CHR ''*''" "c \<noteq> CHR ''+''"
    "c \<noteq> CHR ''?''" "c \<noteq> CHR ''[''" "c \<noteq> CHR ''.''" "c \<noteq> CHR ''^''" "c \<noteq> CHR ''$''"
    "c \<noteq> CHR 0x5C" "c \<noteq> CHR ''{''"
  using assms by (auto simp: plain_char_def special_chars_def)

lemma normal_step_plain:
  assumes "plain_char c"
  shows "normal_step st c = Inr (st\<lparr>cur_items := Lit c # cur_items st\<rparr>)"
  using plain_char_neq[OF assms] by (simp add: normal_step_def push_item_def)

lemma parse_step_plain:
  assumes "plain_char c" "mode st = Normal \<or> mode st = AfterOpen"
  shows "parse_step st c = Inr (st\<lparr>cur_items := Lit c # cur_items st, mode := Normal\<rparr>)"
proof -
  have q: "c \<noteq> CHR ''?''" using plain_char_neq[OF assms(1)] by simp
  from assms(2) show ?thesis
  proof
    assume m: "mode st = Normal"
    then have "st\<lparr>cur_items := Lit c # cur_items st, mode := Normal\<rparr> = st\<lparr>cur_items := Lit c # cur_items st\<rparr>"
      by (cases st) simp
    with m show ?thesis by (simp add: parse_step_def normal_step_plain[OF assms(1)])
  next
    assume m: "mode st = AfterOpen"
    have "st\<lparr>mode := Normal, cur_items := Lit c # cur_items st\<rparr> = st\<lparr>cur_items := Lit c # cur_items st, mode := Normal\<rparr>"
      by (cases st) simp
    with m q show ?thesis by (simp add: parse_step_def normal_step_plain[OF assms(1)])
  qed
qed


lemma parse_chars_plain:
  assumes "plain s" "mode st = Normal \<or> mode st = AfterOpen" "c \<noteq> CHR ''?''"
  shows "parse_chars st (s @ c # cs) =
         parse_chars (st\<lparr>cur_items := rev (map Lit s) @ cur_items st, mode := Normal\<rparr>) (c # cs)"
  using assms
proof (induction s arbitrary: st)
  case Nil
  from Nil(2) show ?case
  proof
    assume "mode st = Normal"
    then have "st\<lparr>cur_items := cur_items st, mode := Normal\<rparr> = st" by (cases st) simp
    then show ?thesis by simp
  next
    assume m: "mode st = AfterOpen"
    have e: "st\<lparr>cur_items := cur_items st, mode := Normal\<rparr> = st\<lparr>mode := Normal\<rparr>" by (cases st) simp
    show ?thesis using m Nil(3) by (simp add: e parse_step_def)
  qed
next
  case (Cons a s)
  from Cons.prems have a: "plain_char a" and s: "plain s" by (simp_all add: plain_def)
  have "parse_chars st ((a # s) @ c # cs) =
        parse_chars (st\<lparr>cur_items := Lit a # cur_items st, mode := Normal\<rparr>) (s @ c # cs)"
    by (simp add: parse_step_plain[OF a Cons.prems(2)])
  also have "\<dots> = parse_chars (st\<lparr>cur_items := Lit a # cur_items st, mode := Normal\<rparr>
                  \<lparr>cur_items := rev (map Lit s) @ cur_items (st\<lparr>cur_items := Lit a # cur_items st, mode := Normal\<rparr>),
                   mode := Normal\<rparr>) (c # cs)"
    by (rule Cons.IH[OF s _ Cons.prems(3)]) simp
  also have "(st\<lparr>cur_items := Lit a # cur_items st, mode := Normal\<rparr>
                  \<lparr>cur_items := rev (map Lit s) @ cur_items (st\<lparr>cur_items := Lit a # cur_items st, mode := Normal\<rparr>),
                   mode := Normal\<rparr>) = st\<lparr>cur_items := rev (map Lit (a # s)) @ cur_items st, mode := Normal\<rparr>"
    by (cases st) simp
  finally show ?case .
qed


lemma compile_valid:
  assumes H: "plain H" and U: "plain U"
  shows "re_compile (valid_matcher \<lparr>username = U, host = H\<rparr>) =
         Inr \<lparr>p_regex = literal_valid_regex U H, p_groups = 2, p_names = []\<rparr>"
  by (simp add: re_compile_def valid_matcher_def parse_finish_def literal_valid_regex_def
      lits_then_def
      parse_init_def parse_step_def normal_step_def push_item_def repeat_step_def
      repeat_item_def mk_repeat_def after_repeat_def finish_sub_def
      parse_chars_plain[OF H] parse_chars_plain[OF U] numeral_2_eq_2 numeral_3_eq_3)

lemma compile_priority:
  assumes H: "plain H" and U: "plain U"
  shows "re_compile (priority_matcher \<lparr>username = U, host = H\<rparr>) =
         Inr \<lparr>p_regex = literal_priority_regex U H, p_groups = 3, p_names = []\<rparr>"
  by (simp add: re_compile_def priority_matcher_def parse_finish_def literal_priority_regex_def
      lits_then_def
      parse_init_def parse_step_def normal_step_def push_item_def repeat_step_def
      repeat_item_def mk_repeat_def after_repeat_def finish_sub_def
      parse_chars_plain[OF H] parse_chars_plain[OF U] numeral_2_eq_2 numeral_3_eq_3)

lemma skip_0 [simp]: "skip 0 st = st"
  by (simp add: skip_def)

lemma ms_lits_then:
  "ms (lits_then s rs) st =
     (if take (length s) (rest st) = s then ms (seq_of rs) (skip (length s) st) else [])"
proof (induction s arbitrary: st)
  case Nil
  show ?case by (simp add: lits_then_def)
next
  case (Cons a s)
  have unf: "lits_then (a # s) rs = Seq (Lit a) (lits_then s rs)" by (simp add: lits_then_def)
  show ?case
  proof (cases "rest st")
    case Nil
    then show ?thesis by (simp add: unf one_char_def)
  next
    case (Cons x xs)
    have sk: "skip (length s) (advance st) = skip (Suc (length s)) st"
      using Cons by (simp add: skip_def advance_def)
    show ?thesis
      using Cons Cons.IH[of "advance st"] sk
      by (auto simp: unf one_char_def advance_def)
  qed
qed


lemma NL_not_at [simp]: "NL \<noteq> CHR ''@''" "CHR ''@'' \<noteq> NL"
  by (simp_all add: NL_def)

lemma take_drop_iff: "take (length L) q = L \<and> drop (length L) q = R \<longleftrightarrow> q = L @ R"
  by (metis append_eq_conv_conj)

lemma matches_lit_iff:
  "matches_lit L q \<longleftrightarrow>
   take (length L) q = L \<and> (drop (length L) q = [] \<or> drop (length L) q = [NL])"
  using take_drop_iff[of L q "[]"] take_drop_iff[of L q "[NL]"]
  by (auto simp: matches_lit_def)

lemma matches_lit_app_iff:
  "matches_lit (U @ CHR ''@'' # H) q \<longleftrightarrow>
   take (length U) q = U \<and> take (Suc (length H)) (drop (length U) q) = CHR ''@'' # H \<and>
   (drop (Suc (length H)) (drop (length U) q) = [] \<or>
    drop (Suc (length H)) (drop (length U) q) = [NL])"
proof -
  have "matches_lit (CHR ''@'' # H) (drop (length U) q) \<and> take (length U) q = U \<longleftrightarrow>
        matches_lit (U @ CHR ''@'' # H) q"
    using take_drop_iff[of U q "CHR ''@'' # H"] take_drop_iff[of U q "CHR ''@'' # H @ [NL]"]
    by (auto simp: matches_lit_def)
  then show ?thesis
    using matches_lit_iff[of "CHR ''@'' # H" "drop (length U) q"] by auto
qed

lemma concat_map_Eps [simp]: "concat (map (ms Eps) xs) = xs"
  by (induction xs) simp_all

lemma ms_lits_only:
  "ms (lits_then L []) st = (if take (length L) (rest st) = L then [skip (length L) st] else [])"
  by (simp add: ms_lits_then)

lemma ms_lits_opt:
  "ms (lits_then L [Opt True G]) st =
     (if take (length L) (rest st) = L then ms G (skip (length L) st) @ [skip (length L) st] else [])"
  by (simp add: ms_lits_then)

lemma map_if_single: "map f (if c then xs else []) = (if c then map f xs else [])"
  by simp

lemma concat_if_single: "concat (if c then xs else []) = (if c then concat xs else [])"
  by simp

lemma if_if_conj: "(if a then (if b then x else []) else []) = (if a \<and> b then x else [])"
  by simp

lemma if_app_distrib:
  "(if a then (if b then x else []) @ (if c then y else []) else []) =
   (if a \<and> b then x else []) @ (if a \<and> c then y else [])"
  by simp

lemma take_user_host:
  "take (Suc (length U + length H)) q = take (length U) q @ take (Suc (length H)) (drop (length U) q)"
  by (metis take_add add_Suc_right)

lemma prio_outcomes:
  "map groups3 (ms (literal_priority_regex U H) (match_start q)) =
     (if matches_lit H q then [[Some H, None, None]] else []) @
     (if matches_lit (U @ CHR ''@'' # H) q
      then [[Some (U @ CHR ''@'' # H), Some (U @ CHR ''@'' # H), Some (CHR ''@'' # H)]] else []) @
     (if matches_lit U q then [[Some U, Some U, None]] else [])"
proof -
  have raw: "map groups3 (ms (literal_priority_regex U H) (match_start q)) =
    (if take (length H) q = H \<and> (length q \<le> length H \<or> drop (length H) q = [NL])
     then [[Some (take (length H) q), None, None]] else []) @
    (if take (length U) q = U \<and>
        take (Suc (length H)) (drop (length U) q) = CHR ''@'' # H \<and>
        (length q \<le> Suc (length H + length U) \<or> drop (Suc (length H + length U)) q = [NL])
     then [[Some (take (Suc (length U + length H)) q),
            Some (take (Suc (length U + length H)) q),
            Some (take (Suc (length H)) (drop (length U) q))]]
     else []) @
    (if take (length U) q = U \<and> (length q \<le> length U \<or> drop (length U) q = [NL])
     then [[Some (take (length U) q), Some (take (length U) q), None]]
     else [])"
    by (simp add: literal_priority_regex_def ms_lits_only ms_lits_opt match_start_def
      map_if_single concat_if_single skip_def capture_def groups3_def if_if_conj if_app_distrib
      split del: if_split cong del: if_weak_cong)
  have c1: "\<And>L. (if take (length L) q = L \<and> (length q \<le> length L \<or> drop (length L) q = [NL])
         then [[Some (take (length L) q), None, None]] else []) =
        (if matches_lit L q then [[Some L, None, None]] else [])"
    using matches_lit_iff[of _ q] by auto
  have c3: "(if take (length U) q = U \<and> (length q \<le> length U \<or> drop (length U) q = [NL])
         then [[Some (take (length U) q), Some (take (length U) q), None]] else []) =
        (if matches_lit U q then [[Some U, Some U, None]] else [])"
    using matches_lit_iff[of U q] by auto
  have c2: "(if take (length U) q = U \<and>
        take (Suc (length H)) (drop (length U) q) = CHR ''@'' # H \<and>
        (length q \<le> Suc (length H + length U) \<or> drop (Suc (length H + length U)) q = [NL])
     then [[Some (take (Suc (length U + length H)) q),
            Some (take (Suc (length U + length H)) q),
            Some (take (Suc (length H)) (drop (length U) q))]]
     else []) =
     (if matches_lit (U @ CHR ''@'' # H) q
      then [[Some (U @ CHR ''@'' # H), Some (U @ CHR ''@'' # H), Some (CHR ''@'' # H)]] else [])"
    using matches_lit_app_iff[of U H q] take_user_host[of U H q] by auto
  show ?thesis unfolding raw c1 c2 c3 ..
qed


lemma valid_outcomes:
  "ms (literal_valid_regex U H) (match_start q) \<noteq> [] \<longleftrightarrow>
     matches_lit H q \<or> matches_lit (U @ CHR ''@'' # H) q \<or> matches_lit U q"
proof -
  have raw: "map (\<lambda>st. ()) (ms (literal_valid_regex U H) (match_start q)) =
    (if take (length H) q = H \<and> (length q \<le> length H \<or> drop (length H) q = [NL])
     then [()] else []) @
    (if take (length U) q = U \<and>
        take (Suc (length H)) (drop (length U) q) = CHR ''@'' # H \<and>
        (length q \<le> Suc (length H + length U) \<or> drop (Suc (length H + length U)) q = [NL])
     then [()] else []) @
    (if take (length U) q = U \<and> (length q \<le> length U \<or> drop (length U) q = [NL])
     then [()] else [])"
    by (simp add: literal_valid_regex_def ms_lits_only ms_lits_opt match_start_def
      map_if_single concat_if_single skip_def capture_def if_if_conj if_app_distrib
      split del: if_split cong del: if_weak_cong)
  have "ms (literal_valid_regex U H) (match_start q) \<noteq> [] \<longleftrightarrow>
        map (\<lambda>st. ()) (ms (literal_valid_regex U H) (match_start q)) \<noteq> []"
    by simp
  also have "\<dots> \<longleftrightarrow> matches_lit H q \<or> matches_lit (U @ CHR ''@'' # H) q \<or> matches_lit U q"
    unfolding raw
    using matches_lit_iff[of H q] matches_lit_iff[of U q] matches_lit_app_iff[of U H q]
    by auto
  finally show ?thesis .
qed

lemma re_match_valid:
  assumes "plain U" "plain H"
  shows "re_match (valid_matcher \<lparr>username = U, host = H\<rparr>) (Some q) =
         Inr (case ms (literal_valid_regex U H) (match_start q) of
                [] \<Rightarrow> None
              | st # _ \<Rightarrow> Some \<lparr>m_pattern = \<lparr>p_regex = literal_valid_regex U H, p_groups = 2, p_names = []\<rparr>,
                                m_caps = caps st\<rparr>)"
  by (simp add: re_match_def compile_valid[OF assms(2) assms(1)] split: list.splits)

lemma is_valid_plain:
  assumes "plain U" "plain H" "specialization it = Some q"
  shows "is_valid \<lparr>username = U, host = H\<rparr> it =
         Inr (matches_lit H q \<or> matches_lit (U @ CHR ''@'' # H) q \<or> matches_lit U q)"
proof -
  have "is_valid \<lparr>username = U, host = H\<rparr> it =
        Inr (ms (literal_valid_regex U H) (match_start q) \<noteq> [])"
    using assms(3)
    by (simp add: is_valid_def re_match_valid[OF assms(1,2)] split: list.splits)
  then show ?thesis by (simp add: valid_outcomes)
qed

lemma re_match_priority:
  assumes "plain U" "plain H"
  shows "re_match (priority_matcher \<lparr>username = U, host = H\<rparr>) (Some q) =
         Inr (case ms (literal_priority_regex U H) (match_start q) of
                [] \<Rightarrow> None
              | st # _ \<Rightarrow> Some \<lparr>m_pattern = \<lparr>p_regex = literal_priority_regex U H, p_groups = 3, p_names = []\<rparr>,
                                m_caps = caps st\<rparr>)"
  by (simp add: re_match_def compile_priority[OF assms(2) assms(1)] split: list.splits)

lemma groups_3:
  "groups \<lparr>m_pattern = \<lparr>p_regex = r, p_groups = 3, p_names = ns\<rparr>, m_caps = caps st\<rparr> = groups3 st"
  by (simp add: groups_def groups3_def upt_rec numeral_2_eq_2 numeral_3_eq_3)

lemma get_priority_plain:
  assumes "plain U" "plain H" "specialization it = Some q" "q \<noteq> []"
  shows "get_priority \<lparr>username = U, host = H\<rparr> it =
         Inr (if matches_lit H q then (if H = [] then 0 else 1)
              else if matches_lit (U @ CHR ''@'' # H) q then 3
              else if matches_lit U q then (if U = [] then 0 else 2)
              else - 1)"
proof -
  have "get_priority \<lparr>username = U, host = H\<rparr> it =
        Inr (case map groups3 (ms (literal_priority_regex U H) (match_start q)) of
               [] \<Rightarrow> - 1 | g # _ \<Rightarrow> int (length (filter truthy g)))"
    using assms(3,4)
    by (simp add: get_priority_def truthy_def re_match_priority[OF assms(1,2)] groups_3
        split: list.splits)
  then show ?thesis
    by (simp add: prio_outcomes truthy_def)
qed

section \<open>Priorities\<close>

lemma matches_lit_exact:
  assumes "q = [] \<or> last q \<noteq> NL"
  shows "matches_lit L q \<longleftrightarrow> q = L"
  using assms by (auto simp: matches_lit_def)

text \<open>
  Claim C1, as stated, fails: for the identity \<^verbatim>\<open>alice\<close> at \<^verbatim>\<open>box1\<close> the qualifier \<^verbatim>\<open>alice\<close>
  scores 2 and not 1, and \<^verbatim>\<open>alice@box1\<close> scores 3 and not 2; a bare user name is ranked above
  a bare host name, as the module's documentation says (user+host, then user, then host).
\<close>

theorem priority_counterexample:
  "get_priority \<lparr>username = ''alice'', host = ''box1''\<rparr>
     \<lparr>filename = ''cfg<alice>'', directory = ''/src'', destination = Some ''cfg'',
      specialization = Some ''alice''\<rparr> = Inr 2
   \<and> get_priority \<lparr>username = ''alice'', host = ''box1''\<rparr>
     \<lparr>filename = ''cfg<box1>'', directory = ''/src'', destination = Some ''cfg'',
      specialization = Some ''box1''\<rparr> = Inr 1
   \<and> get_priority \<lparr>username = ''alice'', host = ''box1''\<rparr>
     \<lparr>filename = ''cfg<alice@box1>'', directory = ''/src'', destination = Some ''cfg'',
      specialization = Some ''alice@box1''\<rparr> = Inr 3"
  by code_simp

text \<open>
  Claim C1, amended. For every identity whose user name and host name are plain, non-empty
  and distinct, and every qualifier that does not end with a newline, \<^verbatim>\<open>get_priority\<close> returns
  0 when the qualifier is absent or empty, 1 when it equals the host, 2 when it equals the
  user name, 3 when it equals \<^verbatim>\<open>username@host\<close>, and \<open>-1\<close> when it is non-empty and is none of
  the three.
\<close>

theorem priority_of_qualifier:
  assumes "plain U" "plain H" "U \<noteq> []" "H \<noteq> []" "U \<noteq> H"
    and "no_final_newline (specialization it)"
  shows "get_priority \<lparr>username = U, host = H\<rparr> it =
         Inr (case specialization it of
                None \<Rightarrow> 0
              | Some q \<Rightarrow>
                  if q = [] then 0
                  else if q = H then 1
                  else if q = U then 2
                  else if q = U @ ''@'' @ H then 3
                  else - 1)"
proof (cases "specialization it")
  case None
  then show ?thesis by (simp add: get_priority_def truthy_def)
next
  case (Some q)
  show ?thesis
  proof (cases "q = []")
    case True
    with Some show ?thesis by (simp add: get_priority_def truthy_def)
  next
    case False
    from assms(6) Some have nl: "q = [] \<or> last q \<noteq> NL" by (simp add: no_final_newline_def)
    have ex: "\<And>L. matches_lit L q \<longleftrightarrow> q = L"
      by (rule matches_lit_exact[OF nl])
    have "get_priority \<lparr>username = U, host = H\<rparr> it =
          Inr (if q = H then (if H = [] then 0 else 1)
               else if q = U @ CHR ''@'' # H then 3
               else if q = U then (if U = [] then 0 else 2)
               else - 1)"
      unfolding get_priority_plain[OF assms(1,2) Some False] ex ..
    then show ?thesis
      using Some False assms(3,4,5) by auto
  qed
qed

lemma plain_bob: "plain ''bob''" "plain ''hal''"
  by (simp_all add: plain_def plain_char_def special_chars_def)

theorem priority_of_qualifier_witness:
  "get_priority \<lparr>username = ''bob'', host = ''hal''\<rparr>
     \<lparr>filename = ''rc<bob@hal>'', directory = ''/src'', destination = Some ''rc'',
      specialization = Some ''bob@hal''\<rparr> = Inr 3"
  using priority_of_qualifier[of "''bob''" "''hal''"
      "\<lparr>filename = ''rc<bob@hal>'', directory = ''/src'', destination = Some ''rc'',
        specialization = Some ''bob@hal''\<rparr>"]
  by (simp add: plain_bob no_final_newline_def NL_def)


section \<open>Destination paths\<close>

text \<open>
  Claim C5, as stated, fails: with source root \<^verbatim>\<open>/src\<close> and destination root \<^verbatim>\<open>/out\<close>, the file
  \<^verbatim>\<open>myfile\<close> of the directory \<^verbatim>\<open>/src/a/b\<close> gets the destination \<^verbatim>\<open>/out/a/b/myfile\<close>, and the map
  has no entry for \<^verbatim>\<open>/out/b/myfile\<close>.
\<close>

theorem path_counterexample:
  "add_dst ''/'' (SymlinkContainer ''/src'' ''/out'')
     \<lparr>filename = ''myfile'', directory = ''/src/a/b'', destination = Some ''myfile'',
      specialization = None\<rparr> = Inr ''/out/a/b/myfile''
   \<and> entry_at ''/out/b/myfile''
     (process_file \<lparr>username = ''alice'', host = ''box1''\<rparr> (\<lambda>name. False) ''/''
        (SymlinkContainer ''/src'' ''/out'') ''/src/a/b'' ''myfile'') = Inr None"
  by code_simp

text \<open>
  Claim C5, amended. With source root \<^verbatim>\<open>/src\<close> and destination root \<^verbatim>\<open>/out\<close>, a candidate in the
  directory \<^verbatim>\<open>/src/a/b\<close> with base name \<^verbatim>\<open>myfile\<close> is mapped by \<^verbatim>\<open>add\<close> to exactly
  \<^verbatim>\<open>/out/a/b/myfile\<close>: the directory's path relative to the source root is kept in full. This
  holds whatever the current directory, the file's own name and qualifier, and the content of
  the map.
\<close>

theorem path_of_nested_file:
  "add_dst cwd \<lparr>container = m, src_root = ''/src'', dst_root = ''/out''\<rparr>
     \<lparr>filename = f, directory = ''/src/a/b'', destination = Some ''myfile'',
      specialization = s\<rparr> = Inr ''/out/a/b/myfile''"
  by (simp add: add_dst_def relpath_def abspath_def isabs_def normpath_def path_parts_def
      join_def join2_def Let_def)

text \<open>
  The example of the module's documentation: with source root \<^verbatim>\<open>/a\<close> the file \<^verbatim>\<open>my_file\<close> of
  \<^verbatim>\<open>/a/b\<close> is linked at \<^verbatim>\<open>/out/b/my_file\<close>.
\<close>

lemma docstring_example:
  "entry_at ''/out/b/my_file''
     (process_file \<lparr>username = ''alice'', host = ''box1''\<rparr> (\<lambda>name. False) ''/''
        (SymlinkContainer ''/a'' ''/out'') ''/a/b'' ''my_file'')
   = Inr (Some \<lparr>source = ''/a/b/my_file'', priority = 0\<rparr>)"
  by code_simp

section \<open>The identity is read as a pattern\<close>

text \<open>
  \<^verbatim>\<open>is_valid\<close> and \<^verbatim>\<open>get_priority\<close> paste the user name and the host name into their patterns
  without escaping them, and end the pattern with \<^verbatim>\<open>$\<close>. The theorems of this section run the
  code on inputs where that shows.

  Claim C4. The host \<^verbatim>\<open>my.box\<close> contains a dot. The file \<^verbatim>\<open>cfg<myxbox>\<close> parses to the base
  name \<^verbatim>\<open>cfg\<close> and the qualifier \<^verbatim>\<open>myxbox\<close>, which differs from the host, the user name and
  \<^verbatim>\<open>alice@my.box\<close>; \<^verbatim>\<open>is_valid\<close> returns \<open>True\<close> for it.
\<close>

theorem dotted_host_accepts_other_qualifier:
  "SpecializedItem ''/src'' ''cfg<myxbox>'' =
     Inr \<lparr>filename = ''cfg<myxbox>'', directory = ''/src'', destination = Some ''cfg'',
          specialization = Some ''myxbox''\<rparr>
   \<and> is_valid \<lparr>username = ''alice'', host = ''my.box''\<rparr>
       \<lparr>filename = ''cfg<myxbox>'', directory = ''/src'', destination = Some ''cfg'',
        specialization = Some ''myxbox''\<rparr> = Inr True"
  by code_simp

text \<open>
  Claim C7. With the same identity, the loop of \<^verbatim>\<open>main\<close> adds \<^verbatim>\<open>cfg<myxbox>\<close>, the only
  candidate for \<^verbatim>\<open>/out/cfg\<close>, to the map.
\<close>

theorem mismatched_qualifier_is_linked:
  "entry_at ''/out/cfg''
     (process_files \<lparr>username = ''alice'', host = ''my.box''\<rparr> (\<lambda>name. False) ''/''
        (SymlinkContainer ''/src'' ''/out'') ''/src'' [''cfg<myxbox>''])
   = Inr (Some \<lparr>source = ''/src/cfg<myxbox>'', priority = 1\<rparr>)"
  by code_simp

text \<open>
  The two patterns differ by one pair of parentheses, and an unbalanced user name makes them
  accept different texts: for the user name \<^verbatim>\<open>a)(b\<close> the qualifier \<^verbatim>\<open>hb\<close> is valid, yet
  \<^verbatim>\<open>get_priority\<close> finds no match, and the loop stores the priority \<open>-1\<close>.
\<close>

lemma negative_priority_can_be_stored:
  "entry_at ''/out/cfg''
     (process_files \<lparr>username = ''a)(b'', host = ''h''\<rparr> (\<lambda>name. False) ''/''
        (SymlinkContainer ''/src'' ''/out'') ''/src'' [''cfg<hb>''])
   = Inr (Some \<lparr>source = ''/src/cfg<hb>'', priority = - 1\<rparr>)"
  by code_simp

text \<open>
  Claim C2. For the user \<^verbatim>\<open>u\<close> on a host given as \<^verbatim>\<open>.*\<close>, the three files \<^verbatim>\<open>cfg<.*>\<close> (bare
  host), \<^verbatim>\<open>cfg<u@.*>\<close> (user at host) and \<^verbatim>\<open>cfg\<close> are all valid and compete for \<^verbatim>\<open>/out/cfg\<close>.
  Added in this order, the entry that remains is the bare-host file: the host pattern already
  matches the whole of \<^verbatim>\<open>u@.*\<close>, so both qualified files score 1 and the first one stays.
\<close>

theorem host_pattern_beats_user_at_host:
  "entry_at ''/out/cfg''
     (process_files \<lparr>username = ''u'', host = ''.*''\<rparr> (\<lambda>name. False) ''/''
        (SymlinkContainer ''/src'' ''/out'') ''/src'' [''cfg<.*>'', ''cfg<u@.*>'', ''cfg''])
   = Inr (Some \<lparr>source = ''/src/cfg<.*>'', priority = 1\<rparr>)
   \<and> get_priority \<lparr>username = ''u'', host = ''.*''\<rparr>
       \<lparr>filename = ''cfg<u@.*>'', directory = ''/src'', destination = Some ''cfg'',
        specialization = Some ''u@.*''\<rparr> = Inr 1"
  by code_simp

text \<open>
  Claim C10. For a host given as \<^verbatim>\<open>x*\<close> (non-empty), the file \<^verbatim>\<open>cfg<>\<close> parses to the base name
  \<^verbatim>\<open>cfg\<close> with the empty qualifier and has priority 0, but \<^verbatim>\<open>is_valid\<close> returns \<open>True\<close>: the
  pattern \<^verbatim>\<open>x*\<close> matches the empty text.
\<close>

theorem empty_qualifier_valid_for_starred_host:
  "SpecializedItem ''/src'' ''cfg<>'' =
     Inr \<lparr>filename = ''cfg<>'', directory = ''/src'', destination = Some ''cfg'',
          specialization = Some []\<rparr>
   \<and> is_valid \<lparr>username = ''alice'', host = ''x*''\<rparr>
       \<lparr>filename = ''cfg<>'', directory = ''/src'', destination = Some ''cfg'',
        specialization = Some []\<rparr> = Inr True
   \<and> get_priority \<lparr>username = ''alice'', host = ''x*''\<rparr>
       \<lparr>filename = ''cfg<>'', directory = ''/src'', destination = Some ''cfg'',
        specialization = Some []\<rparr> = Inr 0"
  by code_simp

section \<open>File names the grammar rejects\<close>

text \<open>
  Claim C6. A file name with a newline inside, here \<^verbatim>\<open>a\<close>, newline, \<^verbatim>\<open>b\<close>, does not match the
  grammar (\<^verbatim>\<open>.\<close> does not match a newline), so \<^verbatim>\<open>_split_specialization\<close> leaves \<^verbatim>\<open>destination\<close>
  and \<^verbatim>\<open>_specialization\<close> at \<^verbatim>\<open>None\<close>. \<^verbatim>\<open>is_valid\<close> then calls \<^verbatim>\<open>re.match\<close> on \<^verbatim>\<open>None\<close> and raises
  \<^verbatim>\<open>TypeError\<close>; the loop of \<^verbatim>\<open>main\<close> ends with that exception and does not reach the next file.
  The empty file name fares the same.
\<close>

theorem unparsed_name_raises:
  "SpecializedItem ''/src'' (''a'' @ [NL] @ ''b'') =
     Inr \<lparr>filename = ''a'' @ [NL] @ ''b'', directory = ''/src'', destination = None,
          specialization = None\<rparr>
   \<and> is_valid \<lparr>username = ''alice'', host = ''box1''\<rparr>
       \<lparr>filename = ''a'' @ [NL] @ ''b'', directory = ''/src'', destination = None,
        specialization = None\<rparr> = Inl TypeError
   \<and> entry_at ''/out/cfg''
       (process_files \<lparr>username = ''alice'', host = ''box1''\<rparr> (\<lambda>name. False) ''/''
          (SymlinkContainer ''/src'' ''/out'') ''/src'' [''a'' @ [NL] @ ''b'', ''cfg''])
       = Inl TypeError
   \<and> SpecializedItem ''/src'' [] =
     Inr \<lparr>filename = [], directory = ''/src'', destination = None, specialization = None\<rparr>
   \<and> is_valid \<lparr>username = ''alice'', host = ''box1''\<rparr>
       \<lparr>filename = [], directory = ''/src'', destination = None, specialization = None\<rparr>
       = Inl TypeError"
  by code_simp

section \<open>What holds for a plain identity\<close>

lemma compile_expression:
  "re_compile expression_matcher =
     Inr \<lparr>p_regex =
            Seq Bol
             (Seq (Grp 1 (Seq (Plus False AnyChar) Eps))
               (Seq (Opt True
                      (Grp 2
                        (Seq (Lit CHR ''<'')
                          (Seq (Grp 3 (Seq (Star False (NotInSet ''<'')) Eps))
                            (Seq (Lit CHR ''>'') (Seq Eol Eps))))))
                 (Seq Eol Eps))),
          p_groups = 3, p_names = [(''specialization'', 3), (''name'', 1)]\<rparr>"
  by code_simp

lemma SpecializedItem_total: "\<exists>it. SpecializedItem dir name = Inr it"
  by (simp add: SpecializedItem_def split_specialization_def re_match_def compile_expression
      del: ms.simps split: list.splits)

lemma SpecializedItem_fields:
  assumes "SpecializedItem dir name = Inr it"
  shows "filename it = name \<and> directory it = dir"
  using assms
  by (auto simp: SpecializedItem_def split_specialization_def re_match_def compile_expression
      simp del: ms.simps split: list.splits)

lemma is_valid_unparsed:
  assumes "destination it = None" "specialization it = None"
  shows "\<exists>e. is_valid ident it = Inl e"
  using assms by (simp add: is_valid_def truthy_def re_match_def split: sum.splits)

lemma is_valid_unparsed_plain:
  assumes "destination it = None" "specialization it = None" "plain U" "plain H"
  shows "is_valid \<lparr>username = U, host = H\<rparr> it = Inl TypeError"
  using assms by (simp add: is_valid_def truthy_def re_match_def compile_valid)


text \<open>
  The constructor of \<^verbatim>\<open>SpecializedItem\<close> never raises: its pattern is a constant that
  compiles, and the file name handed to it is a string. It keeps the directory and the file
  name it was given.
\<close>

theorem constructor_returns: "\<exists>it. SpecializedItem dir name = Inr it \<and> filename it = name \<and> directory it = dir"
  using SpecializedItem_total[of dir name] SpecializedItem_fields[of dir name] by blast

text \<open>
  An item whose file name did not parse (\<^verbatim>\<open>destination\<close> and \<^verbatim>\<open>_specialization\<close> both \<^verbatim>\<open>None\<close>)
  makes \<^verbatim>\<open>is_valid\<close> raise, for every identity: \<^verbatim>\<open>re.match\<close> is called on \<^verbatim>\<open>None\<close>.
\<close>

theorem unparsed_item_raises:
  assumes "destination it = None" "specialization it = None"
  shows "\<exists>e. is_valid ident it = Inl e"
  using assms by (rule is_valid_unparsed)

theorem unparsed_item_raises_witness:
  "\<exists>e. is_valid \<lparr>username = ''bob'', host = ''hal''\<rparr>
     \<lparr>filename = [NL], directory = ''/src'', destination = None, specialization = None\<rparr> = Inl e"
  using unparsed_item_raises[of "\<lparr>filename = [NL], directory = ''/src'', destination = None,
      specialization = None\<rparr>" "\<lparr>username = ''bob'', host = ''hal''\<rparr>"]
  by simp

text \<open>
  Validity for a plain identity: an item with a qualifier \<open>q\<close> is valid exactly when \<open>q\<close> is
  the host, the user name or \<^verbatim>\<open>username@host\<close>, or one of these followed by a single newline
  (which \<^verbatim>\<open>$\<close> lets through).
\<close>

theorem validity_for_plain_identity:
  assumes "plain U" "plain H" "specialization it = Some q"
  shows "is_valid \<lparr>username = U, host = H\<rparr> it =
         Inr (matches_lit H q \<or> matches_lit U q \<or> matches_lit (U @ ''@'' @ H) q)"
  using is_valid_plain[OF assms] by auto

theorem validity_for_plain_identity_witness:
  "is_valid \<lparr>username = ''bob'', host = ''hal''\<rparr>
     \<lparr>filename = ''rc<hal>'', directory = ''/src'', destination = Some ''rc'',
      specialization = Some ''hal''\<rparr> = Inr True
   \<and> is_valid \<lparr>username = ''bob'', host = ''hal''\<rparr>
     \<lparr>filename = ''rc<halt>'', directory = ''/src'', destination = Some ''rc'',
      specialization = Some ''halt''\<rparr> = Inr False"
  using validity_for_plain_identity[of "''bob''" "''hal''"
      "\<lparr>filename = ''rc<hal>'', directory = ''/src'', destination = Some ''rc'',
        specialization = Some ''hal''\<rparr>" "''hal''"]
    validity_for_plain_identity[of "''bob''" "''hal''"
      "\<lparr>filename = ''rc<halt>'', directory = ''/src'', destination = Some ''rc'',
        specialization = Some ''halt''\<rparr>" "''halt''"]
  by (simp add: plain_bob matches_lit_def NL_def)

lemma at_shift: "CHR ''@'' # H \<noteq> H @ [NL]"
  by (induction H) auto

lemma not_host_matches_user_at_host: "\<not> matches_lit H (U @ CHR ''@'' # H)"
proof
  assume "matches_lit H (U @ CHR ''@'' # H)"
  then have e: "U @ CHR ''@'' # H = H @ [NL]"
    by (auto simp: matches_lit_def dest: arg_cong[where f = length])
  then have "length U = 0" by (auto dest: arg_cong[where f = length])
  with e show False using at_shift[of H] by simp
qed

lemma priority_user_at_host:
  assumes "plain U" "plain H" "specialization it = Some (U @ CHR ''@'' # H)"
  shows "get_priority \<lparr>username = U, host = H\<rparr> it = Inr 3"
  using get_priority_plain[OF assms(1,2,3)] not_host_matches_user_at_host[of H U]
  by (simp add: matches_lit_def)

lemma priority_host:
  assumes "plain U" "plain H" "specialization it = Some H"
  shows "get_priority \<lparr>username = U, host = H\<rparr> it = Inr (if H = [] then 0 else 1)"
proof (cases "H = []")
  case True
  with assms(3) show ?thesis by (simp add: get_priority_def truthy_def)
next
  case False
  then show ?thesis
    using get_priority_plain[OF assms(1,2,3)] by (simp add: matches_lit_def)
qed

lemma priority_unqualified:
  assumes "specialization it = None"
  shows "get_priority ident it = Inr 0"
  using assms by (simp add: get_priority_def truthy_def)

lemma first_max_unique:
  assumes "e \<in> set es" "\<And>x. x \<in> set es \<Longrightarrow> x \<noteq> e \<Longrightarrow> priority x < priority e"
  shows "first_max es = Some e"
proof -
  from assms(1) have ne: "es \<noteq> []" by auto
  then obtain m where m: "first_max es = Some m" "m \<in> set es"
      "priority m = Max (set (map priority es))"
    using first_max_Some by blast
  have "priority e \<le> priority m" using m(3) assms(1) by simp
  with assms(2)[OF m(2)] have "m = e" by fastforce
  with m(1) show ?thesis by simp
qed


text \<open>
  Specificity ordering for a plain identity: when a bare-host candidate, a
  \<^verbatim>\<open>username@host\<close> candidate and an unqualified candidate compete for one destination, the
  run over them in any order succeeds and leaves the \<^verbatim>\<open>username@host\<close> candidate, with
  priority 3.
\<close>

theorem user_at_host_wins:
  assumes "plain U" "plain H"
    and perm: "mset its = mset [a, b, c]"
    and quals: "specialization a = Some H" "specialization b = Some (U @ ''@'' @ H)"
      "specialization c = None"
    and dsts: "add_dst cwd (SymlinkContainer sr dr) a = Inr dst"
      "add_dst cwd (SymlinkContainer sr dr) b = Inr dst"
      "add_dst cwd (SymlinkContainer sr dr) c = Inr dst"
  shows "\<exists>m. add_all \<lparr>username = U, host = H\<rparr> cwd (SymlinkContainer sr dr) its = Inr m \<and>
             container m dst =
               Some \<lparr>source = add_src (SymlinkContainer sr dr) b, priority = 3\<rparr>"
proof -
  let ?I = "\<lparr>username = U, host = H\<rparr>"
  let ?C = "SymlinkContainer sr dr"
  let ?ea = "\<lparr>source = add_src ?C a, priority = (if H = [] then 0 else 1)\<rparr>"
  let ?eb = "\<lparr>source = add_src ?C b, priority = 3\<rparr>"
  let ?ec = "\<lparr>source = add_src ?C c, priority = 0\<rparr>"
  have ca: "candidate ?I cwd ?C a = Inr (dst, ?ea)"
    using dsts(1) priority_host[OF assms(1,2) quals(1)] by (simp add: candidate_def)
  have cb: "candidate ?I cwd ?C b = Inr (dst, ?eb)"
    using dsts(2) priority_user_at_host[OF assms(1,2), of b] quals(2) by (simp add: candidate_def)
  have cc: "candidate ?I cwd ?C c = Inr (dst, ?ec)"
    using dsts(3) priority_unqualified[OF quals(3)] by (simp add: candidate_def)
  have sets: "set its = {a, b, c}" using mset_eq_setD[OF perm] by simp
  have "\<forall>it \<in> set its. \<exists>x. candidate ?I cwd ?C it = Inr x"
    using sets ca cb cc by auto
  then obtain cs where cs: "candidates ?I cwd ?C its = Inr cs"
    using candidates_Inr_iff[of ?I cwd ?C its] by auto
  have empty: "container ?C = Map.empty" by (simp add: SymlinkContainer_def)
  from add_all_spec[OF empty, of ?I cwd its] cs
  obtain m where m: "add_all ?I cwd ?C its = Inr m" "container m = spec_entry cs"
    by (cases "add_all ?I cwd ?C its") auto
  have scs: "set cs = {(dst, ?ea), (dst, ?eb), (dst, ?ec)}"
    using candidates_set[OF cs] sets ca cb cc by auto
  have "first_max (map snd (filter (\<lambda>x. fst x = dst) cs)) = Some ?eb"
  proof (rule first_max_unique)
    show "?eb \<in> set (map snd (filter (\<lambda>x. fst x = dst) cs))"
      using scs by force
  next
    fix x
    assume "x \<in> set (map snd (filter (\<lambda>x. fst x = dst) cs))" and "x \<noteq> ?eb"
    then have "x = ?ea \<or> x = ?ec" using scs by auto
    then show "priority x < priority ?eb" by auto
  qed
  with m show ?thesis by (auto simp: spec_entry_def)
qed

lemma dst_rc:
  "add_dst ''/'' (SymlinkContainer ''/src'' ''/out'')
     \<lparr>filename = f, directory = ''/src'', destination = Some ''rc'', specialization = s\<rparr>
   = Inr ''/out/rc''"
  by (simp add: add_dst_def SymlinkContainer_def relpath_def abspath_def isabs_def normpath_def
      path_parts_def join_def join2_def Let_def)

theorem user_at_host_wins_witness:
  "\<exists>m. add_all \<lparr>username = ''bob'', host = ''hal''\<rparr> ''/'' (SymlinkContainer ''/src'' ''/out'')
          [\<lparr>filename = ''rc'', directory = ''/src'', destination = Some ''rc'',
            specialization = None\<rparr>,
           \<lparr>filename = ''rc<hal>'', directory = ''/src'', destination = Some ''rc'',
            specialization = Some ''hal''\<rparr>,
           \<lparr>filename = ''rc<bob@hal>'', directory = ''/src'', destination = Some ''rc'',
            specialization = Some ''bob@hal''\<rparr>] = Inr m
      \<and> container m ''/out/rc'' = Some \<lparr>source = ''/src/rc<bob@hal>'', priority = 3\<rparr>"
proof -
  let ?a = "\<lparr>filename = ''rc<hal>'', directory = ''/src'', destination = Some ''rc'',
            specialization = Some ''hal''\<rparr>"
  let ?b = "\<lparr>filename = ''rc<bob@hal>'', directory = ''/src'', destination = Some ''rc'',
            specialization = Some ''bob@hal''\<rparr>"
  let ?c = "\<lparr>filename = ''rc'', directory = ''/src'', destination = Some ''rc'',
            specialization = None\<rparr>"
  have perm: "mset [?c, ?a, ?b] = mset [?a, ?b, ?c]" by simp
  have src: "add_src (SymlinkContainer ''/src'' ''/out'') ?b = ''/src/rc<bob@hal>''"
    by (simp add: add_src_def SymlinkContainer_def join_def join2_def isabs_def)
  have "\<exists>m. add_all \<lparr>username = ''bob'', host = ''hal''\<rparr> ''/''
              (SymlinkContainer ''/src'' ''/out'') [?c, ?a, ?b] = Inr m \<and>
            container m ''/out/rc'' =
              Some \<lparr>source = add_src (SymlinkContainer ''/src'' ''/out'') ?b, priority = 3\<rparr>"
    by (rule user_at_host_wins[OF plain_bob perm]) (simp_all add: dst_rc)
  then show ?thesis by (simp add: src)
qed

lemma valid_priority_nonneg:
  assumes "plain U" "plain H"
    and "is_valid \<lparr>username = U, host = H\<rparr> it = Inr True"
    and "get_priority \<lparr>username = U, host = H\<rparr> it = Inr p"
  shows "0 \<le> p"
proof (cases "specialization it")
  case None
  with assms(4) show ?thesis by (simp add: get_priority_def truthy_def)
next
  case (Some q)
  show ?thesis
  proof (cases "q = []")
    case True
    with Some assms(4) show ?thesis by (simp add: get_priority_def truthy_def)
  next
    case False
    from assms(3) have "matches_lit H q \<or> matches_lit (U @ CHR ''@'' # H) q \<or> matches_lit U q"
      by (simp add: is_valid_plain[OF assms(1,2) Some])
    with assms(4) show ?thesis
      by (auto simp: get_priority_plain[OF assms(1,2) Some False] split: if_splits)
  qed
qed

lemma process_file_nonneg:
  assumes "plain U" "plain H" "nonneg c"
    and "process_file \<lparr>username = U, host = H\<rparr> ignored cwd c root name = Inr c'"
  shows "nonneg c'"
proof -
  obtain it where it: "SpecializedItem root name = Inr it"
    using assms(4) by (auto simp: process_file_def split: sum.splits)
  obtain v where v: "is_valid \<lparr>username = U, host = H\<rparr> it = Inr v"
    using assms(4) it by (auto simp: process_file_def split: sum.splits)
  show ?thesis
  proof (cases "v \<and> \<not> ignored (filename it)")
    case False
    with assms(3,4) it v show ?thesis by (auto simp: process_file_def)
  next
    case True
    with assms(4) it v have a: "add \<lparr>username = U, host = H\<rparr> cwd c it = Inr c'"
      by (simp add: process_file_def)
    then obtain d e where de: "candidate \<lparr>username = U, host = H\<rparr> cwd c it = Inr (d, e)"
        "c' = store c (d, e)"
      by (auto simp: add_candidate split: sum.splits)
    then have "get_priority \<lparr>username = U, host = H\<rparr> it = Inr (priority e)"
      by (auto simp: candidate_def split: sum.splits)
    with valid_priority_nonneg[OF assms(1,2)] v True have "0 \<le> priority e" by simp
    with assms(3) de(2) show ?thesis
      by (auto simp: nonneg_def store_def split: option.splits if_splits)
  qed
qed

text \<open>
  For a plain identity every priority the loop of \<^verbatim>\<open>main\<close> stores is non-negative: starting
  from a map with non-negative priorities (the empty one in particular), a run over the files
  of a directory that ends without an exception leaves only non-negative priorities.
\<close>

theorem stored_priorities_nonneg:
  assumes "plain U" "plain H" "nonneg c"
    and "process_files \<lparr>username = U, host = H\<rparr> ignored cwd c root names = Inr c'"
  shows "nonneg c'"
  using assms(3,4)
proof (induction names arbitrary: c)
  case Nil
  then show ?case by simp
next
  case (Cons name names)
  from Cons.prems(2) obtain c1 where
    c1: "process_file \<lparr>username = U, host = H\<rparr> ignored cwd c root name = Inr c1"
      "process_files \<lparr>username = U, host = H\<rparr> ignored cwd c1 root names = Inr c'"
    by (auto split: sum.splits)
  from process_file_nonneg[OF assms(1,2) Cons.prems(1) c1(1)] have "nonneg c1" .
  from Cons.IH[OF this c1(2)] show ?case .
qed

lemma run_rc_hal:
  "(case process_files \<lparr>username = ''bob'', host = ''hal''\<rparr> (\<lambda>name. False) ''/''
       (SymlinkContainer ''/src'' ''/out'') ''/src'' [''rc<hal>'', ''rc<eve>''] of
      Inl e \<Rightarrow> False | Inr c \<Rightarrow> True)"
  by code_simp

theorem stored_priorities_nonneg_witness:
  "\<exists>c'. process_files \<lparr>username = ''bob'', host = ''hal''\<rparr> (\<lambda>name. False) ''/''
       (SymlinkContainer ''/src'' ''/out'') ''/src'' [''rc<hal>'', ''rc<eve>''] = Inr c'
     \<and> nonneg c'"
proof -
  obtain c' where c': "process_files \<lparr>username = ''bob'', host = ''hal''\<rparr> (\<lambda>name. False) ''/''
       (SymlinkContainer ''/src'' ''/out'') ''/src'' [''rc<hal>'', ''rc<eve>''] = Inr c'"
    using run_rc_hal by (auto split: sum.splits)
  have "nonneg (SymlinkContainer ''/src'' ''/out'')"
    by (simp add: nonneg_def SymlinkContainer_def)
  from stored_priorities_nonneg[OF plain_bob this c'] c' show ?thesis by blast
qed

text \<open>
  Exclusion for a plain identity: a file whose qualifier does not end with a newline and is
  none of the host, the user name and \<^verbatim>\<open>username@host\<close> is not valid, and the loop of \<^verbatim>\<open>main\<close>
  leaves the map as it was.
\<close>

theorem mismatched_qualifier_skipped:
  assumes "plain U" "plain H"
    and "SpecializedItem root name = Inr it"
    and "specialization it = Some q" "q = [] \<or> last q \<noteq> NL"
    and "q \<noteq> H" "q \<noteq> U" "q \<noteq> U @ ''@'' @ H"
  shows "is_valid \<lparr>username = U, host = H\<rparr> it = Inr False \<and>
         process_file \<lparr>username = U, host = H\<rparr> ignored cwd c root name = Inr c"
proof -
  have "is_valid \<lparr>username = U, host = H\<rparr> it = Inr False"
    using assms(6,7,8)
    by (simp add: is_valid_plain[OF assms(1,2,4)] matches_lit_exact[OF assms(5)])
  then show ?thesis using assms(3) by (simp add: process_file_def)
qed

lemma item_rc_eve:
  "SpecializedItem ''/src'' ''rc<eve>'' =
     Inr \<lparr>filename = ''rc<eve>'', directory = ''/src'', destination = Some ''rc'',
          specialization = Some ''eve''\<rparr>"
  by code_simp

theorem mismatched_qualifier_skipped_witness:
  "is_valid \<lparr>username = ''bob'', host = ''hal''\<rparr>
     \<lparr>filename = ''rc<eve>'', directory = ''/src'', destination = Some ''rc'',
      specialization = Some ''eve''\<rparr> = Inr False
   \<and> process_file \<lparr>username = ''bob'', host = ''hal''\<rparr> (\<lambda>name. False) ''/''
       (SymlinkContainer ''/src'' ''/out'') ''/src'' ''rc<eve>'' = Inr (SymlinkContainer ''/src'' ''/out'')"
  using mismatched_qualifier_skipped[OF plain_bob item_rc_eve, of "''eve''"
      "\<lambda>name. False" "''/''" "SymlinkContainer ''/src'' ''/out''"]
  by (simp add: NL_def)

section \<open>Parsing file names\<close>



lemma skip_advance: "rest st \<noteq> [] \<Longrightarrow> skip k (advance st) = skip (Suc k) st"
  by (cases "rest st") (simp_all add: skip_def advance_def drop_Suc)

lemma lazy_run:
  assumes r: "\<And>st. ms r st = one_char ok st"
  shows "ms (Star False r) st =
         map (\<lambda>k. skip k st) [0 ..< Suc (length (takeWhile ok (rest st)))]"
proof (induction "rest st" arbitrary: st)
  case Nil
  then show ?case by (simp add: ms.simps(12) r one_char_def)
next
  case (Cons x xs)
  show ?case
  proof (cases "ok x")
    case False
    with Cons(2)[symmetric] show ?thesis by (simp add: ms.simps(12) r one_char_def)
  next
    case True
    have rest_adv: "xs = rest (advance st)" using Cons(2)[symmetric] by (simp add: advance_def)
    have ne: "rest st \<noteq> []" using Cons(2)[symmetric] by simp
    have "ms (Star False r) st = st # ms (Star False r) (advance st)"
      using Cons(2)[symmetric] True by (simp add: ms.simps(12)[of False r st] r one_char_def advance_def)
    also have "\<dots> = st # map (\<lambda>k. skip k (advance st)) [0 ..< Suc (length (takeWhile ok xs))]"
      using Cons(1)[OF rest_adv] rest_adv by simp
    also have "\<dots> = map (\<lambda>k. skip k st) (0 # map Suc [0 ..< Suc (length (takeWhile ok xs))])"
      by (simp add: skip_advance[OF ne] comp_def del: upt_Suc)
    also have "0 # map Suc [0 ..< Suc (length (takeWhile ok xs))] =
               [0 ..< Suc (length (takeWhile ok (rest st)))]"
      using Cons(2)[symmetric] True by (simp add: map_Suc_upt upt_conv_Cons del: upt_Suc)
    finally show ?thesis .
  qed
qed

lemma plus_run:
  assumes r: "\<And>st. ms r st = one_char ok st"
  shows "ms (Plus False r) st =
         map (\<lambda>k. skip k st) [1 ..< Suc (length (takeWhile ok (rest st)))]"
proof (cases "rest st")
  case Nil
  then show ?thesis by (simp add: r one_char_def)
next
  case (Cons x xs)
  show ?thesis
  proof (cases "ok x")
    case False
    with Cons show ?thesis by (simp add: r one_char_def)
  next
    case True
    have ne: "rest st \<noteq> []" using Cons by simp
    have rest_adv: "rest (advance st) = xs" using Cons by (simp add: advance_def)
    have "ms (Plus False r) st = ms (Star False r) (advance st)"
      using Cons True by (simp add: r one_char_def)
    also have "\<dots> = map (\<lambda>k. skip k (advance st)) [0 ..< Suc (length (takeWhile ok xs))]"
      by (simp add: lazy_run[OF r] rest_adv del: upt_Suc)
    also have "\<dots> = map (\<lambda>k. skip k st) (map Suc [0 ..< Suc (length (takeWhile ok xs))])"
      by (simp add: skip_advance[OF ne] comp_def del: upt_Suc)
    also have "map Suc [0 ..< Suc (length (takeWhile ok xs))] =
               [1 ..< Suc (length (takeWhile ok (rest st)))]"
      using Cons True by (simp add: map_Suc_upt del: upt_Suc)
    finally show ?thesis .
  qed
qed

lemma concat_map_if_none:
  "(\<And>k. k \<in> set ks \<Longrightarrow> \<not> P k) \<Longrightarrow> concat (map (\<lambda>k. if P k then [f k] else []) ks) = []"
  by (induction ks) auto

lemma concat_map_if_unique:
  assumes "distinct ks" "j \<in> set ks" "P j" "\<And>k. k \<in> set ks \<Longrightarrow> P k \<Longrightarrow> k = j"
  shows "concat (map (\<lambda>k. if P k then [f k] else []) ks) = [f j]"
  using assms
proof (induction ks)
  case Nil
  then show ?case by simp
next
  case (Cons a ks)
  show ?case
  proof (cases "a = j")
    case True
    have "concat (map (\<lambda>k. if P k then [f k] else []) ks) = []"
    proof (rule concat_map_if_none)
      fix k assume k: "k \<in> set ks"
      show "\<not> P k"
      proof
        assume pk: "P k"
        have "k \<in> set (a # ks)" using k by simp
        from Cons.prems(4)[OF this pk] have "k = j" .
        with True k Cons.prems(1) show False by simp
      qed
    qed
    with True Cons.prems(3) show ?thesis by simp
  next
    case False
    have na: "\<not> P a"
    proof
      assume "P a"
      from Cons.prems(4)[OF _ this] have "a = j" by simp
      with False show False by simp
    qed
    have j: "j \<in> set ks" using Cons.prems(2) False by auto
    have d: "distinct ks" using Cons.prems(1) by simp
    have u: "\<And>k. k \<in> set ks \<Longrightarrow> P k \<Longrightarrow> k = j"
    proof -
      fix k assume "k \<in> set ks" and pk: "P k"
      then have "k \<in> set (a # ks)" by simp
      from Cons.prems(4)[OF this pk] show "k = j" .
    qed
    have "concat (map (\<lambda>k. if P k then [f k] else []) ks) = [f j]"
      by (rule Cons.IH[OF d j Cons.prems(3) u])
    with na show ?thesis by simp
  qed
qed

lemma concat_map_first:
  assumes "\<And>k. k \<in> set ks1 \<Longrightarrow> F k = []"
  shows "concat (map F (ks1 @ m # ks2)) = F m @ concat (map F ks2)"
  using assms by (induction ks1) auto


lemma ms_char_end:
  "ms (Seq (Lit c) (Seq Eol Eps)) st =
     (if rest st = [c] \<or> rest st = [c, NL] then [advance st] else [])"
proof (cases "rest st")
  case Nil
  then show ?thesis by (simp add: one_char_def)
next
  case (Cons x xs)
  then show ?thesis by (auto simp: one_char_def advance_def)
qed

lemma rest_skip [simp]: "rest (skip k st) = drop k (rest st)"
  by (simp add: skip_def)

lemma rest_capture [simp]: "rest (capture i st st') = rest st'"
  by (simp add: capture_def)

lemma ms_qualifier_body:
  assumes "rest st = CHR ''<'' # t"
  shows "ms (Seq (Lit CHR ''<'')
              (Seq (Grp 3 (Seq (Star False (NotInSet ''<'')) Eps))
                (Seq (Lit CHR ''>'') (Seq Eol Eps)))) st =
         concat (map (\<lambda>k. if drop k t = ''>'' \<or> drop k t = [CHR ''>'', NL]
                           then [advance (capture 3 (advance st) (skip k (advance st)))]
                           else [])
                     [0 ..< Suc (length (takeWhile (\<lambda>x. x \<notin> set ''<'') t))])"
proof -
  define T where "T = Seq (Lit CHR ''>'') (Seq Eol Eps)"
  define G where "G = Grp 3 (Seq (Star False (NotInSet ''<'')) Eps)"
  define ks where "ks = [0 ..< Suc (length (takeWhile (\<lambda>x. x \<notin> set ''<'') t))]"
  have adv: "rest (advance st) = t" using assms by (simp add: advance_def)
  have one: "\<And>s. ms (NotInSet ''<'') s = one_char (\<lambda>x. x \<notin> set ''<'') s" by simp
  have g3: "ms G (advance st) = map (\<lambda>k. capture 3 (advance st) (skip k (advance st))) ks"
    unfolding G_def ks_def by (simp add: lazy_run[OF one] adv comp_def del: upt_Suc)
  have t: "\<And>s. ms T s = (if rest s = ''>'' \<or> rest s = [CHR ''>'', NL] then [advance s] else [])"
    unfolding T_def by (rule ms_char_end)
  have "ms (Seq (Lit CHR ''<'') (Seq G T)) st = concat (map (\<lambda>s. ms T s) (ms G (advance st)))"
    using assms by (simp add: one_char_def)
  also have "\<dots> = concat (map (\<lambda>k. ms T (capture 3 (advance st) (skip k (advance st)))) ks)"
    unfolding g3 by (simp add: comp_def)
  also have "\<dots> = concat (map (\<lambda>k. if drop k t = ''>'' \<or> drop k t = [CHR ''>'', NL]
                           then [advance (capture 3 (advance st) (skip k (advance st)))]
                           else []) ks)"
    unfolding t by (simp add: adv)
  finally show ?thesis unfolding T_def G_def ks_def .
qed


lemma NL_not_gt [simp]: "NL \<noteq> CHR ''>''" "CHR ''>'' \<noteq> NL" "NL \<noteq> CHR ''<''" "CHR ''<'' \<noteq> NL"
  by (simp_all add: NL_def)

lemma takeWhile_stops: "\<not> P y \<Longrightarrow> length (takeWhile P (xs @ y # ys)) \<le> length xs"
  by (induction xs) auto

lemma body_ok:
  assumes r: "rest st = CHR ''<'' # q @ ''>''" and q: "CHR ''<'' \<notin> set q"
  shows "ms qualifier_body st =
         [advance (capture 3 (advance st) (skip (length q) (advance st)))]"
proof -
  have tw: "takeWhile (\<lambda>x. x \<notin> set ''<'') (q @ ''>'') = q @ ''>''"
    using q by (auto simp: takeWhile_eq_all_conv)
  have "ms qualifier_body st =
        concat (map (\<lambda>k. if drop k (q @ ''>'') = ''>'' \<or> drop k (q @ ''>'') = [CHR ''>'', NL]
                          then [advance (capture 3 (advance st) (skip k (advance st)))]
                          else [])
                    [0 ..< Suc (length (q @ ''>''))])"
    unfolding qualifier_body_def using ms_qualifier_body[OF r] tw by simp
  also have "\<dots> = [advance (capture 3 (advance st) (skip (length q) (advance st)))]"
  proof (rule concat_map_if_unique)
    show "distinct [0 ..< Suc (length (q @ ''>''))]" by simp
    show "length q \<in> set [0 ..< Suc (length (q @ ''>''))]" by simp
    show "drop (length q) (q @ ''>'') = ''>'' \<or> drop (length q) (q @ ''>'') = [CHR ''>'', NL]"
      by simp
  next
    fix k
    assume "k \<in> set [0 ..< Suc (length (q @ ''>''))]"
      and p: "drop k (q @ ''>'') = ''>'' \<or> drop k (q @ ''>'') = [CHR ''>'', NL]"
    from p show "k = length q"
    proof
      assume "drop k (q @ ''>'') = ''>''"
      then have "length (drop k (q @ ''>'')) = 1" by simp
      then show ?thesis by simp
    next
      assume e: "drop k (q @ ''>'') = [CHR ''>'', NL]"
      then have "length (drop k (q @ ''>'')) = 2" by simp
      then have "k < length q" by simp
      then have "drop k (q @ ''>'') = drop k q @ ''>''" by simp
      with e have "last (drop k q @ ''>'') = last [CHR ''>'', NL]" by simp
      then show ?thesis by simp
    qed
  qed
  finally show ?thesis .
qed

lemma body_fail:
  assumes r: "rest st = s @ CHR ''<'' # q @ ''>''" and s: "s \<noteq> []"
  shows "ms qualifier_body st = []"
proof (cases s)
  case Nil
  with s show ?thesis by simp
next
  case (Cons c s')
  show ?thesis
  proof (cases "c = CHR ''<''")
    case False
    with r Cons show ?thesis by (simp add: qualifier_body_def one_char_def)
  next
    case True
    let ?t = "s' @ CHR ''<'' # q @ ''>''"
    have r': "rest st = CHR ''<'' # ?t" using r Cons True by simp
    have n: "length (takeWhile (\<lambda>x. x \<notin> set ''<'') ?t) \<le> length s'"
      by (rule takeWhile_stops) simp
    have "ms qualifier_body st =
        concat (map (\<lambda>k. if drop k ?t = ''>'' \<or> drop k ?t = [CHR ''>'', NL]
                          then [advance (capture 3 (advance st) (skip k (advance st)))]
                          else [])
                    [0 ..< Suc (length (takeWhile (\<lambda>x. x \<notin> set ''<'') ?t))])"
      unfolding qualifier_body_def using ms_qualifier_body[OF r'] by simp
    also have "\<dots> = []"
    proof (rule concat_map_if_none)
      fix k
      assume "k \<in> set [0 ..< Suc (length (takeWhile (\<lambda>x. x \<notin> set ''<'') ?t))]"
      then have k: "k \<le> length s'" using n by auto
      then have d: "drop k ?t = drop k s' @ CHR ''<'' # q @ ''>''" by simp
      show "\<not> (drop k ?t = ''>'' \<or> drop k ?t = [CHR ''>'', NL])"
      proof
        assume "drop k ?t = ''>'' \<or> drop k ?t = [CHR ''>'', NL]"
        then show False
        proof
          assume "drop k ?t = ''>''"
          then have "length (drop k s' @ CHR ''<'' # q @ ''>'') = 1" using d by simp
          then show False by simp
        next
          assume "drop k ?t = [CHR ''>'', NL]"
          then have "last (drop k s' @ CHR ''<'' # q @ ''>'') = last [CHR ''>'', NL]" using d by simp
          then show False by simp
        qed
      qed
    qed
    finally show ?thesis .
  qed
qed

lemma tail_ok:
  assumes r: "rest st = CHR ''<'' # q @ ''>''" and q: "CHR ''<'' \<notin> set q"
  shows "ms name_tail st =
         [capture 2 st (advance (capture 3 (advance st) (skip (length q) (advance st))))]"
proof -
  have adv: "rest (advance st) = q @ ''>''" using r by (simp add: advance_def)
  have "rest (advance (capture 3 (advance st) (skip (length q) (advance st)))) = []"
    using r by (simp add: advance_def)
  then show ?thesis
    using r by (simp add: name_tail_def body_ok[OF r q])
qed

lemma tail_fail:
  assumes r: "rest st = s @ CHR ''<'' # q @ ''>''" and s: "s \<noteq> []"
  shows "ms name_tail st = []"
proof -
  have "length (rest st) \<ge> 3" using r s by (cases s) simp_all
  then have "rest st \<noteq> []" "rest st \<noteq> [NL]" by auto
  then show ?thesis by (simp add: name_tail_def body_fail[OF r s])
qed


lemma compile_expression_tail:
  "re_compile expression_matcher =
     Inr \<lparr>p_regex = Seq Bol (Seq (Grp 1 (Seq (Plus False AnyChar) Eps)) name_tail),
          p_groups = 3, p_names = [(''specialization'', 3), (''name'', 1)]\<rparr>"
  by (simp add: compile_expression name_tail_def qualifier_body_def)

lemma name_outcomes:
  "ms (Grp 1 (Seq (Plus False AnyChar) Eps)) st =
     map (\<lambda>k. capture 1 st (skip k st))
       [1 ..< Suc (length (takeWhile (\<lambda>x. x \<noteq> NL) (rest st)))]"
proof -
  have one: "\<And>s. ms AnyChar s = one_char (\<lambda>x. x \<noteq> NL) s" by simp
  show ?thesis by (simp add: plus_run[OF one] comp_def del: upt_Suc ms.simps(13))
qed

lemma upt_split:
  assumes "1 \<le> m" "m \<le> n"
  shows "[1 ..< Suc n] = [1 ..< m] @ m # [Suc m ..< Suc n]"
proof -
  obtain d where d: "Suc n = m + d" using assms(2) by (metis le_SucI le_Suc_ex)
  have "[1 ..< Suc n] = [1 ..< m] @ [m ..< Suc n]"
    unfolding d using assms(1) by (rule upt_add_eq_append)
  moreover have "[m ..< Suc n] = m # [Suc m ..< Suc n]"
    using assms by (simp add: upt_conv_Cons del: upt_Suc)
  ultimately show ?thesis by simp
qed

lemma expression_outcomes:
  "ms (Seq Bol (Seq (Grp 1 (Seq (Plus False AnyChar) Eps)) name_tail)) (match_start fn) =
     concat (map (\<lambda>k. ms name_tail (capture 1 (match_start fn) (skip k (match_start fn))))
               [1 ..< Suc (length (takeWhile (\<lambda>x. x \<noteq> NL) fn))])"
proof -
  have p: "pos (match_start fn) = 0" and r: "rest (match_start fn) = fn"
    by (simp_all add: match_start_def)
  show ?thesis
    unfolding ms.simps(8) ms.simps(5) name_outcomes p r
    by (simp add: comp_def r del: upt_Suc)
qed


text \<open>
  A file name made of a non-empty base name without newline, followed by \<^verbatim>\<open><\<close>, a
  qualifier without \<^verbatim>\<open><\<close>, and \<^verbatim>\<open>>\<close>, parses back into that base name and that qualifier.
\<close>

theorem parse_qualified:
  assumes name: "name \<noteq> []" "NL \<notin> set name" and q: "CHR ''<'' \<notin> set q"
  shows "SpecializedItem dir (name @ ''<'' @ q @ ''>'') =
         Inr \<lparr>filename = name @ ''<'' @ q @ ''>'', directory = dir,
              destination = Some name, specialization = Some q\<rparr>"
proof -
  define fn where "fn = name @ CHR ''<'' # q @ ''>''"
  define st0 where "st0 = match_start fn"
  define F where "F = (\<lambda>k. ms name_tail (capture 1 st0 (skip k st0)))"
  define final where "final = capture 2 (capture 1 st0 (skip (length name) st0))
      (advance (capture 3 (advance (capture 1 st0 (skip (length name) st0)))
         (skip (length q) (advance (capture 1 st0 (skip (length name) st0))))))"
  have r0: "rest st0 = fn" "pos st0 = 0" by (simp_all add: st0_def match_start_def)
  have tw: "takeWhile (\<lambda>x. x \<noteq> NL) fn = name @ takeWhile (\<lambda>x. x \<noteq> NL) (CHR ''<'' # q @ ''>'')"
    unfolding fn_def using name(2) by (intro takeWhile_append2) auto
  have m: "1 \<le> length name" "length name \<le> length (takeWhile (\<lambda>x. x \<noteq> NL) fn)"
    using name(1) by (simp_all add: tw Suc_le_eq)
  have fail: "\<And>k. k \<in> set [1 ..< length name] \<Longrightarrow> F k = []"
  proof -
    fix k assume "k \<in> set [1 ..< length name]"
    then have k: "k < length name" by simp
    have "rest (capture 1 st0 (skip k st0)) = drop k name @ CHR ''<'' # q @ ''>''"
      using k by (simp add: r0 fn_def)
    moreover have "drop k name \<noteq> []" using k by simp
    ultimately show "F k = []" unfolding F_def by (rule tail_fail)
  qed
  have ok: "F (length name) = [final]"
  proof -
    have "rest (capture 1 st0 (skip (length name) st0)) = CHR ''<'' # q @ ''>''"
      by (simp add: r0 fn_def)
    from tail_ok[OF this q] show ?thesis unfolding F_def final_def .
  qed
  have "ms (Seq Bol (Seq (Grp 1 (Seq (Plus False AnyChar) Eps)) name_tail)) (match_start fn) =
        concat (map F [1 ..< Suc (length (takeWhile (\<lambda>x. x \<noteq> NL) fn))])"
    unfolding expression_outcomes F_def st0_def ..
  also have "\<dots> = concat (map F ([1 ..< length name] @ length name #
                       [Suc (length name) ..< Suc (length (takeWhile (\<lambda>x. x \<noteq> NL) fn))]))"
    using upt_split[OF m] by simp
  also have "\<dots> = F (length name) @
        concat (map F [Suc (length name) ..< Suc (length (takeWhile (\<lambda>x. x \<noteq> NL) fn))])"
    by (rule concat_map_first[OF fail])
  finally have outcomes:
    "ms (Seq Bol (Seq (Grp 1 (Seq (Plus False AnyChar) Eps)) name_tail)) (match_start fn) =
       final # concat (map F [Suc (length name) ..< Suc (length (takeWhile (\<lambda>x. x \<noteq> NL) fn))])"
    by (simp add: ok)
  have c1: "caps final (Suc 0) = Some name"
    by (simp add: final_def capture_def advance_def skip_def r0 fn_def)
  have c3: "caps final 3 = Some q"
    by (simp add: final_def capture_def advance_def skip_def r0 fn_def)
  have rm: "re_match expression_matcher (Some fn) =
        Inr (Some \<lparr>m_pattern =
                     \<lparr>p_regex = Seq Bol (Seq (Grp 1 (Seq (Plus False AnyChar) Eps)) name_tail),
                      p_groups = 3, p_names = [(''specialization'', 3), (''name'', 1)]\<rparr>,
                   m_caps = caps final\<rparr>)"
    by (simp only: re_match_def compile_expression_tail sum.case option.case
        pattern.select_convs outcomes list.case)
  have "SpecializedItem dir fn =
        Inr \<lparr>filename = fn, directory = dir, destination = Some name, specialization = Some q\<rparr>"
    by (simp add: SpecializedItem_def split_specialization_def rm group_named_def c1 c3)
  then show ?thesis by (simp add: fn_def)
qed


text \<open>
  A non-empty file name without newline that does not end with \<^verbatim>\<open>>\<close> has no qualifier: it
  is its own base name.
\<close>

theorem parse_unqualified:
  assumes fn: "fn \<noteq> []" "NL \<notin> set fn" "last fn \<noteq> CHR ''>''"
  shows "SpecializedItem dir fn =
         Inr \<lparr>filename = fn, directory = dir, destination = Some fn, specialization = None\<rparr>"
proof -
  define st0 where "st0 = match_start fn"
  define F where "F = (\<lambda>k. ms name_tail (capture 1 st0 (skip k st0)))"
  define final where "final = capture 1 st0 (skip (length fn) st0)"
  have r0: "rest st0 = fn" "pos st0 = 0" "caps st0 = (\<lambda>i. None)"
    by (simp_all add: st0_def match_start_def)
  have tw: "takeWhile (\<lambda>x. x \<noteq> NL) fn = fn"
    using fn(2) by (auto simp: takeWhile_eq_all_conv)
  have body: "\<And>st. rest st \<noteq> [] \<Longrightarrow> NL \<notin> set (rest st) \<Longrightarrow> last (rest st) \<noteq> CHR ''>''
                \<Longrightarrow> ms name_tail st = []"
  proof -
    fix st :: mstate
    assume ne: "rest st \<noteq> []" and nl: "NL \<notin> set (rest st)" and lst: "last (rest st) \<noteq> CHR ''>''"
    have eol: "rest st \<noteq> [NL]" using nl by auto
    have "ms qualifier_body st = []"
    proof (cases "rest st")
      case Nil
      with ne show ?thesis by simp
    next
      case (Cons c t)
      show ?thesis
      proof (cases "c = CHR ''<''")
        case False
        with Cons show ?thesis by (simp add: qualifier_body_def one_char_def)
      next
        case True
        with Cons have r: "rest st = CHR ''<'' # t" by simp
        have "ms qualifier_body st =
          concat (map (\<lambda>k. if drop k t = ''>'' \<or> drop k t = [CHR ''>'', NL]
                          then [advance (capture 3 (advance st) (skip k (advance st)))]
                          else [])
                    [0 ..< Suc (length (takeWhile (\<lambda>x. x \<notin> set ''<'') t))])"
          unfolding qualifier_body_def using ms_qualifier_body[OF r] by simp
        also have "\<dots> = []"
        proof (rule concat_map_if_none)
          fix k
          show "\<not> (drop k t = ''>'' \<or> drop k t = [CHR ''>'', NL])"
          proof
            assume "drop k t = ''>'' \<or> drop k t = [CHR ''>'', NL]"
            then show False
            proof
              assume d: "drop k t = ''>''"
              then have kl: "k < length t" by (cases "k < length t") auto
              then have "t \<noteq> []" by auto
              have "last (drop k t) = last t" using kl by (rule last_drop)
              with d have "last t = CHR ''>''" by simp
              with lst r \<open>t \<noteq> []\<close> show False by simp
            next
              assume d: "drop k t = [CHR ''>'', NL]"
              then have "NL \<in> set (drop k t)" by simp
              then have "NL \<in> set t" by (rule in_set_dropD)
              with nl r show False by simp
            qed
          qed
        qed
        finally show ?thesis .
      qed
    qed
    with ne eol show "ms name_tail st = []" by (simp add: name_tail_def)
  qed
  have fail: "\<And>k. k \<in> set [1 ..< length fn] \<Longrightarrow> F k = []"
  proof -
    fix k assume "k \<in> set [1 ..< length fn]"
    then have k: "k < length fn" by simp
    have "rest (capture 1 st0 (skip k st0)) = drop k fn" by (simp add: r0)
    moreover have "drop k fn \<noteq> []" using k by simp
    moreover have "NL \<notin> set (drop k fn)" using fn(2) by (meson in_set_dropD)
    moreover have "last (drop k fn) \<noteq> CHR ''>''" using fn(3) k by (simp add: last_drop)
    ultimately show "F k = []" unfolding F_def using body by simp
  qed
  have ok: "F (length fn) = [final]"
  proof -
    have "rest final = []" by (simp add: final_def r0)
    then show ?thesis
      unfolding F_def final_def[symmetric]
      by (simp add: name_tail_def qualifier_body_def one_char_def)
  qed
  have m: "1 \<le> length fn" "length fn \<le> length (takeWhile (\<lambda>x. x \<noteq> NL) fn)"
    using fn(1) by (simp_all add: tw Suc_le_eq)
  have "ms (Seq Bol (Seq (Grp 1 (Seq (Plus False AnyChar) Eps)) name_tail)) (match_start fn) =
        concat (map F [1 ..< Suc (length (takeWhile (\<lambda>x. x \<noteq> NL) fn))])"
    unfolding expression_outcomes F_def st0_def ..
  also have "\<dots> = concat (map F ([1 ..< length fn] @ length fn #
                       [Suc (length fn) ..< Suc (length (takeWhile (\<lambda>x. x \<noteq> NL) fn))]))"
    using upt_split[OF m] by simp
  also have "\<dots> = F (length fn) @
        concat (map F [Suc (length fn) ..< Suc (length (takeWhile (\<lambda>x. x \<noteq> NL) fn))])"
    by (rule concat_map_first[OF fail])
  finally have outcomes:
    "ms (Seq Bol (Seq (Grp 1 (Seq (Plus False AnyChar) Eps)) name_tail)) (match_start fn) =
       final # concat (map F [Suc (length fn) ..< Suc (length (takeWhile (\<lambda>x. x \<noteq> NL) fn))])"
    by (simp add: ok)
  have c1: "caps final (Suc 0) = Some fn"
    by (simp add: final_def capture_def skip_def r0)
  have c3: "caps final 3 = None"
    by (simp add: final_def capture_def skip_def r0)
  have rm: "re_match expression_matcher (Some fn) =
        Inr (Some \<lparr>m_pattern =
                     \<lparr>p_regex = Seq Bol (Seq (Grp 1 (Seq (Plus False AnyChar) Eps)) name_tail),
                      p_groups = 3, p_names = [(''specialization'', 3), (''name'', 1)]\<rparr>,
                   m_caps = caps final\<rparr>)"
    by (simp only: re_match_def compile_expression_tail sum.case option.case
        pattern.select_convs outcomes list.case)
  show ?thesis
    by (simp add: SpecializedItem_def split_specialization_def rm group_named_def c1 c3)
qed

text \<open>
  The file \<^verbatim>\<open>name<>\<close> under a plain identity with non-empty user name and host name: it parses
  with the empty qualifier, is not valid, and has priority 0.
\<close>

theorem empty_qualifier_plain:
  assumes "plain U" "plain H" "U \<noteq> []" "H \<noteq> []" "name \<noteq> []" "NL \<notin> set name"
  shows "SpecializedItem dir (name @ ''<>'') =
           Inr \<lparr>filename = name @ ''<>'', directory = dir, destination = Some name,
                specialization = Some []\<rparr>
       \<and> is_valid \<lparr>username = U, host = H\<rparr>
           \<lparr>filename = name @ ''<>'', directory = dir, destination = Some name,
            specialization = Some []\<rparr> = Inr False
       \<and> get_priority \<lparr>username = U, host = H\<rparr>
           \<lparr>filename = name @ ''<>'', directory = dir, destination = Some name,
            specialization = Some []\<rparr> = Inr 0"
proof -
  have "SpecializedItem dir (name @ ''<'' @ [] @ ''>'') =
           Inr \<lparr>filename = name @ ''<'' @ [] @ ''>'', directory = dir, destination = Some name,
                specialization = Some []\<rparr>"
    by (rule parse_qualified[OF assms(5,6)]) simp
  moreover have "is_valid \<lparr>username = U, host = H\<rparr>
           \<lparr>filename = name @ ''<>'', directory = dir, destination = Some name,
            specialization = Some []\<rparr> = Inr False"
    using assms(3,4) by (simp add: is_valid_plain[OF assms(1,2)] matches_lit_def)
  moreover have "get_priority \<lparr>username = U, host = H\<rparr>
           \<lparr>filename = name @ ''<>'', directory = dir, destination = Some name,
            specialization = Some []\<rparr> = Inr 0"
    by (simp add: get_priority_def truthy_def)
  ultimately show ?thesis by simp
qed

theorem empty_qualifier_plain_witness:
  "SpecializedItem ''/src'' ''rc<>'' =
           Inr \<lparr>filename = ''rc<>'', directory = ''/src'', destination = Some ''rc'',
                specialization = Some []\<rparr>
       \<and> is_valid \<lparr>username = ''bob'', host = ''hal''\<rparr>
           \<lparr>filename = ''rc<>'', directory = ''/src'', destination = Some ''rc'',
            specialization = Some []\<rparr> = Inr False
       \<and> get_priority \<lparr>username = ''bob'', host = ''hal''\<rparr>
           \<lparr>filename = ''rc<>'', directory = ''/src'', destination = Some ''rc'',
            specialization = Some []\<rparr> = Inr 0"
  using empty_qualifier_plain[of "''bob''" "''hal''" "''rc''" "''/src''"]
  by (simp add: plain_bob NL_def)

end
